theory Spec2Isabelle
  imports Main "HOL-Library.AList"
begin

section \<open>Configuration values\<close>

text \<open>
  The configuration manager works on the values a YAML, JSON or TOML document decodes to:
  \<open>None\<close>, booleans, integers, floats, strings, lists and dictionaries with string keys.
  A Python \<open>dict\<close> keeps its keys in insertion order, and its keys are unique; it is
  modelled as an association list, with \<open>wf_value\<close> stating that the keys of every
  dictionary in a value are distinct. Strings are lists of characters with code points
  below 256.

  A float is kept as the decimal numeral it was read from (sign, digits, decimal exponent),
  or as an infinity or a NaN; rounding to binary64 is not modelled, and nothing below
  compares or computes with floats.
\<close>

datatype pyfloat = FFinite bool nat int | FInf bool | FNaN

datatype pyvalue =
    VNone
  | VBool bool
  | VInt int
  | VFloat pyfloat
  | VStr string
  | VList "pyvalue list"
  | VDict "(string \<times> pyvalue) list"

type_synonym pydict = "(string \<times> pyvalue) list"

text \<open>The exceptions that the modelled code raises or catches.\<close>

datatype exn =
    KeyError
  | TypeError
  | ValueError
  | FileNotFoundError
  | RecursionError
  | AttributeError
  | SystemError
  | ConfigValidationError "string list"

text \<open>
  \<open>d[k]\<close> and \<open>d.get(k)\<close> read with \<open>map_of\<close>; \<open>d[k] = v\<close> replaces the value of an
  existing key where it stands and appends a new key at the end; \<open>del d[k]\<close> and
  \<open>d.pop(k)\<close> remove the key.
\<close>

abbreviation dict_get :: "pydict \<Rightarrow> string \<Rightarrow> pyvalue option" where
  "dict_get d k \<equiv> map_of d k"

abbreviation dict_set :: "pydict \<Rightarrow> string \<Rightarrow> pyvalue \<Rightarrow> pydict" where
  "dict_set d k v \<equiv> AList.update k v d"

abbreviation dict_del :: "pydict \<Rightarrow> string \<Rightarrow> pydict" where
  "dict_del d k \<equiv> AList.delete k d"

definition dict_has :: "pydict \<Rightarrow> string \<Rightarrow> bool" where
  "dict_has d k = (k \<in> set (map fst d))"

definition is_dict :: "pyvalue \<Rightarrow> bool" where
  "is_dict v = (case v of VDict _ \<Rightarrow> True | _ \<Rightarrow> False)"

fun wf_value :: "pyvalue \<Rightarrow> bool" where
  "wf_value (VDict d) = (distinct (map fst d) \<and> list_all (\<lambda>kv. wf_value (snd kv)) d)"
| "wf_value (VList xs) = list_all wf_value xs"
| "wf_value _ = True"

abbreviation wf_dict :: "pydict \<Rightarrow> bool" where
  "wf_dict d \<equiv> wf_value (VDict d)"

text \<open>\<open>copy.deepcopy\<close> of a value is a value equal to it.\<close>

definition deepcopy :: "pyvalue \<Rightarrow> pyvalue" where
  "deepcopy v = v"

section \<open>utils.py\<close>

subsection \<open>deep_merge\<close>

text \<open>
  \<open>deep_merge(base, overlay)\<close> starts from \<open>result = deepcopy(base)\<close> and runs over
  \<open>overlay.items()\<close>. The first argument of the model is \<open>result\<close>, which is \<open>base\<close> when
  the function is entered; each equation is one turn of the loop.
\<close>

fun deep_merge :: "pydict \<Rightarrow> pydict \<Rightarrow> pydict" where
  "deep_merge result [] = result"
| "deep_merge result ((key, val) # overlay) =
     deep_merge
       (case (dict_get result key, val) of
          (Some (VDict b), VDict v) \<Rightarrow> dict_set result key (VDict (deep_merge b v))
        | _ \<Rightarrow> dict_set result key (deepcopy val))
       overlay"

subsection \<open>Dot paths\<close>

text \<open>\<open>key_path.split('.')\<close>: the segments between the separators, never an empty list.\<close>

definition separator :: char where
  "separator = CHR ''.''"

fun split_path :: "string \<Rightarrow> string list" where
  "split_path [] = [[]]"
| "split_path (c # cs) =
     (if c = separator then [] # split_path cs
      else (case split_path cs of [] \<Rightarrow> [[c]] | w # ws \<Rightarrow> (c # w) # ws))"

text \<open>
  \<open>get_nested_value\<close>: the body of the \<open>try\<close> is \<open>get_walk\<close>, which raises \<open>KeyError\<close>
  when \<open>current_data[key]\<close> misses; the handler turns \<open>KeyError\<close> and \<open>TypeError\<close> into
  the default.
\<close>

fun get_walk :: "pyvalue \<Rightarrow> string list \<Rightarrow> pyvalue \<Rightarrow> exn + pyvalue" where
  "get_walk current_data [] dflt = Inr current_data"
| "get_walk current_data (key # keys) dflt =
     (case current_data of
        VDict d \<Rightarrow>
          (case dict_get d key of
             None \<Rightarrow> Inl KeyError
           | Some v \<Rightarrow> get_walk v keys dflt)
      | _ \<Rightarrow> Inr dflt)"

definition get_nested_value :: "pyvalue \<Rightarrow> string \<Rightarrow> pyvalue \<Rightarrow> exn + pyvalue" where
  "get_nested_value data key_path dflt =
     (case get_walk data (split_path key_path) dflt of
        Inl KeyError \<Rightarrow> Inr dflt
      | Inl TypeError \<Rightarrow> Inr dflt
      | Inl e \<Rightarrow> Inl e
      | Inr v \<Rightarrow> Inr v)"

fun has_walk :: "pyvalue \<Rightarrow> string list \<Rightarrow> exn + bool" where
  "has_walk current_data [] = Inr True"
| "has_walk current_data (key # keys) =
     (case current_data of
        VDict d \<Rightarrow>
          (case dict_get d key of
             None \<Rightarrow> Inr False
           | Some v \<Rightarrow> has_walk v keys)
      | _ \<Rightarrow> Inr False)"

definition has_nested_key :: "pyvalue \<Rightarrow> string \<Rightarrow> exn + bool" where
  "has_nested_key data key_path =
     (case has_walk data (split_path key_path) of
        Inl KeyError \<Rightarrow> Inr False
      | Inl TypeError \<Rightarrow> Inr False
      | Inl e \<Rightarrow> Inl e
      | Inr b \<Rightarrow> Inr b)"

text \<open>
  \<open>set_nested_value\<close> changes \<open>data\<close> in place; the model returns the changed dictionary.
  \<open>set_walk\<close> is the loop over \<open>keys[:-1]\<close>: a missing key or a value that is not a
  dictionary is replaced by \<open>{}\<close>, and the walk goes on inside it; at the end
  \<open>current_data[keys[-1]] = value\<close>.
\<close>

fun set_walk :: "pydict \<Rightarrow> string list \<Rightarrow> string \<Rightarrow> pyvalue \<Rightarrow> pydict" where
  "set_walk current_data [] last_key val = dict_set current_data last_key val"
| "set_walk current_data (key # keys) last_key val =
     dict_set current_data key
       (VDict (set_walk
          (case dict_get current_data key of Some (VDict sub) \<Rightarrow> sub | _ \<Rightarrow> [])
          keys last_key val))"

definition set_nested_value :: "pydict \<Rightarrow> string \<Rightarrow> pyvalue \<Rightarrow> pydict" where
  "set_nested_value data key_path val =
     (let keys = split_path key_path
      in set_walk data (butlast keys) (last keys) val)"

subsection \<open>flatten_dict and unflatten_dict\<close>

text \<open>
  \<open>flatten_items\<close> is the loop of \<open>flatten_dict\<close> over \<open>data.items()\<close>, with the
  dictionary \<open>result\<close> built so far; \<open>result.update(other)\<close> stores the items of \<open>other\<close>
  in their order.
\<close>

definition dict_update :: "pydict \<Rightarrow> pydict \<Rightarrow> pydict" where
  "dict_update result other = fold (\<lambda>kv r. dict_set r (fst kv) (snd kv)) other result"

fun flatten_items :: "pydict \<Rightarrow> string \<Rightarrow> pydict \<Rightarrow> pydict" where
  "flatten_items [] prefix result = result"
| "flatten_items ((key, val) # data) prefix result =
     (let new_key = (if prefix \<noteq> [] then prefix @ [separator] @ key else key)
      in flatten_items data prefix
           (case val of
              VDict d \<Rightarrow> dict_update result (flatten_items d new_key [])
            | _ \<Rightarrow> dict_set result new_key val))"

definition flatten_dict :: "pydict \<Rightarrow> string \<Rightarrow> pydict" where
  "flatten_dict data prefix = flatten_items data prefix []"

definition unflatten_dict :: "pydict \<Rightarrow> pydict" where
  "unflatten_dict flat_data =
     fold (\<lambda>kv result. set_nested_value result (fst kv) (snd kv)) flat_data []"

section \<open>Strings and numerals of the Python library\<close>

text \<open>
  \<open>str.lower\<close> and \<open>str.strip\<close> on code points below 256, and the numerals that
  \<open>int(s)\<close> and \<open>float(s)\<close> accept: surrounding whitespace, a sign, decimal digits with
  single underscores between digits, and for \<open>float\<close> a fraction, an exponent, and the
  words \<open>inf\<close>, \<open>infinity\<close> and \<open>nan\<close> in any case. \<open>None\<close> stands for \<open>ValueError\<close>.

  The whitespace that \<open>int\<close> and \<open>float\<close> skip is not the whitespace of \<open>str.strip\<close>:
  they skip the characters 9 to 13 and the space, and the two spaces 133 and 160 above
  the ASCII range, which the interpreter turns into a space before it reads the numeral;
  the separators 28 to 31, which \<open>str.strip\<close> removes, are no part of a numeral.
  \<open>int\<close> refuses a numeral of more digits than \<open>sys.int_max_str_digits\<close>, which is 4300
  unless the interpreter is started otherwise (the source does not set it); the sign,
  the underscores and the whitespace do not count, leading zeros do. A float is kept as
  its sign, its digits and its decimal exponent, and is not rounded to the 64 bits of
  the interpreter.
\<close>

definition py_lower_char :: "char \<Rightarrow> char" where
  "py_lower_char c =
     (let n = (of_char c :: nat)
      in if (65 \<le> n \<and> n \<le> 90) \<or> (192 \<le> n \<and> n \<le> 214) \<or> (216 \<le> n \<and> n \<le> 222)
         then char_of (n + 32) else c)"

definition py_lower :: "string \<Rightarrow> string" where
  "py_lower s = map py_lower_char s"

definition py_isspace :: "char \<Rightarrow> bool" where
  "py_isspace c =
     (let n = (of_char c :: nat)
      in (9 \<le> n \<and> n \<le> 13) \<or> (28 \<le> n \<and> n \<le> 32) \<or> n = 133 \<or> n = 160)"

definition py_strip :: "string \<Rightarrow> string" where
  "py_strip s = rev (dropWhile py_isspace (rev (dropWhile py_isspace s)))"

definition startswith :: "string \<Rightarrow> string \<Rightarrow> bool" where
  "startswith s p = (take (length p) s = p)"

definition is_digit :: "char \<Rightarrow> bool" where
  "is_digit c = (let n = (of_char c :: nat) in 48 \<le> n \<and> n \<le> 57)"

definition digits_value :: "string \<Rightarrow> nat" where
  "digits_value ds = foldl (\<lambda>a c. 10 * a + (of_char c - 48)) 0 ds"

text \<open>
  Underscores in a numeral: one may stand only after a digit and before a digit. The
  first argument is the character read before.
\<close>

fun strip_underscores :: "char \<Rightarrow> string \<Rightarrow> string option" where
  "strip_underscores prev [] = (if prev = CHR ''_'' then None else Some [])"
| "strip_underscores prev (c # cs) =
     (if c = CHR ''_'' then (if is_digit prev then strip_underscores c cs else None)
      else if prev = CHR ''_'' \<and> \<not> is_digit c then None
      else map_option ((#) c) (strip_underscores c cs))"

definition take_sign :: "string \<Rightarrow> bool \<times> string" where
  "take_sign s =
     (case s of
        c # cs \<Rightarrow> (if c = CHR ''-'' then (True, cs) else if c = CHR ''+'' then (False, cs) else (False, s))
      | [] \<Rightarrow> (False, s))"

definition num_isspace :: "char \<Rightarrow> bool" where
  "num_isspace c =
     (let n = (of_char c :: nat)
      in (9 \<le> n \<and> n \<le> 13) \<or> n = 32 \<or> n = 133 \<or> n = 160)"

definition num_strip :: "string \<Rightarrow> string" where
  "num_strip s = rev (dropWhile num_isspace (rev (dropWhile num_isspace s)))"

definition int_max_str_digits :: nat where
  "int_max_str_digits = 4300"

definition py_int :: "string \<Rightarrow> int option" where
  "py_int s =
     (let (neg, body) = take_sign (num_strip s)
      in case strip_underscores (CHR 0x00) body of
           None \<Rightarrow> None
         | Some ds \<Rightarrow>
             if ds \<noteq> [] \<and> list_all is_digit ds
             then (if 0 < int_max_str_digits \<and> int_max_str_digits < length ds then None
                   else Some (if neg then - int (digits_value ds) else int (digits_value ds)))
             else None)"

definition parse_exponent :: "string \<Rightarrow> int option" where
  "parse_exponent s =
     (case s of
        [] \<Rightarrow> Some 0
      | c # cs \<Rightarrow>
          if c = CHR ''e'' \<or> c = CHR ''E'' then
            (let (neg, ds) = take_sign cs
             in if ds \<noteq> [] \<and> list_all is_digit ds
                then Some (if neg then - int (digits_value ds) else int (digits_value ds))
                else None)
          else None)"

definition parse_decimal :: "bool \<Rightarrow> string \<Rightarrow> pyfloat option" where
  "parse_decimal neg s =
     (let ip = takeWhile is_digit s;
          r1 = dropWhile is_digit s;
          fp = (case r1 of c # cs \<Rightarrow> if c = CHR ''.'' then takeWhile is_digit cs else [] | [] \<Rightarrow> []);
          r2 = (case r1 of c # cs \<Rightarrow> if c = CHR ''.'' then dropWhile is_digit cs else r1 | [] \<Rightarrow> [])
      in if ip @ fp = [] then None
         else (case parse_exponent r2 of
                 None \<Rightarrow> None
               | Some e \<Rightarrow> Some (FFinite neg (digits_value (ip @ fp)) (e - int (length fp)))))"

definition py_float :: "string \<Rightarrow> pyfloat option" where
  "py_float s =
     (case strip_underscores (CHR 0x00) (num_strip s) of
        None \<Rightarrow> None
      | Some t \<Rightarrow>
          (let (neg, body) = take_sign t; low = py_lower body
           in if low = ''inf'' \<or> low = ''infinity'' then Some (FInf neg)
              else if low = ''nan'' then Some FNaN
              else parse_decimal neg body))"

section \<open>env.py\<close>

datatype Environment = DEVELOPMENT | STAGING | PRODUCTION | TESTING

fun env_value :: "Environment \<Rightarrow> string" where
  "env_value DEVELOPMENT = ''development''"
| "env_value STAGING = ''staging''"
| "env_value PRODUCTION = ''production''"
| "env_value TESTING = ''testing''"

definition env_map :: "(string \<times> Environment) list" where
  "env_map =
     [(''dev'', DEVELOPMENT), (''develop'', DEVELOPMENT), (''development'', DEVELOPMENT),
      (''local'', DEVELOPMENT),
      (''stage'', STAGING), (''staging'', STAGING), (''preprod'', STAGING),
      (''pre-production'', STAGING),
      (''prod'', PRODUCTION), (''production'', PRODUCTION), (''live'', PRODUCTION),
      (''test'', TESTING), (''testing'', TESTING), (''ci'', TESTING)]"

text \<open>\<open>Environment(value)\<close>: the member with that value, or \<open>ValueError\<close>.\<close>

definition env_of_value :: "string \<Rightarrow> Environment option" where
  "env_of_value s =
     map_of (map (\<lambda>e. (env_value e, e)) [DEVELOPMENT, STAGING, PRODUCTION, TESTING]) s"

definition from_string :: "string \<Rightarrow> exn + Environment" where
  "from_string env_str =
     (let normalized_env = py_strip (py_lower env_str)
      in case map_of env_map normalized_env of
           Some e \<Rightarrow> Inr e
         | None \<Rightarrow>
             (case env_of_value normalized_env of
                Some e \<Rightarrow> Inr e
              | None \<Rightarrow> Inl ValueError))"

text \<open>
  The process environment \<open>os.environ\<close> is an argument of every function that reads it:
  the variables and their values, in the order \<open>os.environ.items()\<close> gives them.
\<close>

type_synonym environ = "(string \<times> string) list"

record EnvironmentManager =
  env_var_name :: string
  current_env :: "Environment option"
  env_overrides_cache :: "pydict option"

definition EnvironmentManager_init :: "string \<Rightarrow> EnvironmentManager" where
  "EnvironmentManager_init var_name =
     \<lparr>env_var_name = var_name, current_env = None, env_overrides_cache = None\<rparr>"

text \<open>
  The property \<open>current_environment\<close> stores the environment it finds in \<open>_current_env\<close>,
  so it returns the manager as well.
\<close>

definition current_environment ::
  "environ \<Rightarrow> EnvironmentManager \<Rightarrow> Environment \<times> EnvironmentManager" where
  "current_environment environ em =
     (case current_env em of
        Some e \<Rightarrow> (e, em)
      | None \<Rightarrow>
          (let env_str = (case map_of environ (env_var_name em) of
                            Some v \<Rightarrow> v | None \<Rightarrow> ''development'');
               e = (case from_string env_str of Inr e \<Rightarrow> e | Inl _ \<Rightarrow> DEVELOPMENT)
           in (e, em\<lparr>current_env := Some e\<rparr>)))"

text \<open>The argument of \<open>set_environment\<close> is a string (\<open>Inl\<close>) or an \<open>Environment\<close> (\<open>Inr\<close>).\<close>

definition env_set_environment ::
  "EnvironmentManager \<Rightarrow> string + Environment \<Rightarrow> exn + EnvironmentManager" where
  "env_set_environment em environment =
     (case (case environment of Inl s \<Rightarrow> from_string s | Inr e \<Rightarrow> Inr e) of
        Inl err \<Rightarrow> Inl err
      | Inr e \<Rightarrow> Inr (em\<lparr>current_env := Some e, env_overrides_cache := None\<rparr>))"

definition convert_env_value :: "string \<Rightarrow> pyvalue" where
  "convert_env_value val =
     (if val = [] then VStr []
      else
        (let lower_value = py_lower val
         in if lower_value \<in> set [''true'', ''yes'', ''1'', ''on'', ''enabled''] then VBool True
            else if lower_value \<in> set [''false'', ''no'', ''0'', ''off'', ''disabled'']
              then VBool False
            else
              (case (if CHR ''.'' \<notin> set val \<and> CHR ''e'' \<notin> set lower_value
                     then map_option VInt (py_int val)
                     else map_option VFloat (py_float val)) of
                 Some v \<Rightarrow> v
               | None \<Rightarrow> VStr val)))"

text \<open>One turn of the loop of \<open>get_env_overrides\<close> over \<open>os.environ.items()\<close>.\<close>

definition env_override_step :: "string \<Rightarrow> string \<times> string \<Rightarrow> pydict \<Rightarrow> pydict" where
  "env_override_step prefix kv overrides =
     (if startswith (fst kv) prefix then
        (let config_key =
               map (\<lambda>c. if c = CHR ''_'' then CHR ''.'' else c)
                 (py_lower (drop (length prefix) (fst kv)));
             converted_value = convert_env_value (snd kv)
         in set_nested_value overrides config_key converted_value)
      else overrides)"

definition get_env_overrides ::
  "environ \<Rightarrow> string \<Rightarrow> bool \<Rightarrow> EnvironmentManager \<Rightarrow> pydict \<times> EnvironmentManager" where
  "get_env_overrides environ prefix cache em =
     (case (if cache then env_overrides_cache em else None) of
        Some cached \<Rightarrow> (cached, em)
      | None \<Rightarrow>
          (let overrides = fold (env_override_step prefix) environ []
           in (overrides,
               if cache then em\<lparr>env_overrides_cache := Some overrides\<rparr> else em)))"

definition clear_cache :: "EnvironmentManager \<Rightarrow> EnvironmentManager" where
  "clear_cache em = em\<lparr>env_overrides_cache := None\<rparr>"

definition get_environment_config_key ::
  "environ \<Rightarrow> EnvironmentManager \<Rightarrow> string \<Rightarrow> string \<times> EnvironmentManager" where
  "get_environment_config_key environ em base_key =
     (let (e, em') = current_environment environ em
      in (env_value e @ ''.'' @ base_key, em'))"

section \<open>validators.py\<close>

text \<open>
  A validation rule holds a function from a value to a truth value; the function may
  raise, which is the result \<open>None\<close>, and \<open>ValidationRule.validate\<close> turns that into
  \<open>False\<close>. The attribute \<open>required\<close> is set on the built-in rule of that name only;
  \<open>getattr(rule, 'required', False)\<close> reads it.
\<close>

record ValidationRule =
  name :: string
  validator_func :: "pyvalue \<Rightarrow> bool option"
  error_message :: string
  description :: string
  required :: bool

definition rule_validate :: "ValidationRule \<Rightarrow> pyvalue \<Rightarrow> bool" where
  "rule_validate rule val = (case validator_func rule val of Some b \<Rightarrow> b | None \<Rightarrow> False)"

text \<open>
  The functions of the Python library that the built-in rules and the error messages
  call, and whose results are not part of this code: \<open>str(value)\<close>, \<open>urlparse\<close> (its
  scheme and netloc, or \<open>None\<close> when it raises), whether \<open>re.match\<close> finds the pattern
  of \<open>is_valid_email\<close> in a string, and \<open>int(value)\<close> (or \<open>None\<close> when it raises).
\<close>

record pylib =
  py_str :: "pyvalue \<Rightarrow> string"
  urlparse :: "string \<Rightarrow> (string \<times> string) option"
  email_match :: "string \<Rightarrow> bool"
  int_of_value :: "pyvalue \<Rightarrow> int option"

definition is_valid_url :: "pylib \<Rightarrow> pyvalue \<Rightarrow> bool option" where
  "is_valid_url lib val =
     (case urlparse lib (py_str lib val) of
        None \<Rightarrow> Some False
      | Some (scheme, netloc) \<Rightarrow> Some (scheme \<noteq> [] \<and> netloc \<noteq> []))"

definition is_valid_port :: "pylib \<Rightarrow> pyvalue \<Rightarrow> bool option" where
  "is_valid_port lib val =
     (case int_of_value lib val of
        None \<Rightarrow> Some False
      | Some port \<Rightarrow> Some (1 \<le> port \<and> port \<le> 65535))"

definition is_valid_email :: "pylib \<Rightarrow> pyvalue \<Rightarrow> bool option" where
  "is_valid_email lib val = Some (email_match lib (py_str lib val))"

definition is_not_empty :: "pyvalue \<Rightarrow> bool option" where
  "is_not_empty val =
     (case val of
        VNone \<Rightarrow> Some False
      | VStr s \<Rightarrow> Some (py_strip s \<noteq> [])
      | VList xs \<Rightarrow> Some (xs \<noteq> [])
      | VDict d \<Rightarrow> Some (d \<noteq> [])
      | _ \<Rightarrow> Some True)"

definition url_rule :: "pylib \<Rightarrow> ValidationRule" where
  "url_rule lib =
     \<lparr>name = ''url'', validator_func = is_valid_url lib,
      error_message = ''must be a valid URL with scheme and netloc'',
      description = ''Validates URLs (http://example.com)'', required = False\<rparr>"

definition port_rule :: "pylib \<Rightarrow> ValidationRule" where
  "port_rule lib =
     \<lparr>name = ''port'', validator_func = is_valid_port lib,
      error_message = ''must be a valid port number (1-65535)'',
      description = ''Validates network port numbers'', required = False\<rparr>"

definition email_rule :: "pylib \<Rightarrow> ValidationRule" where
  "email_rule lib =
     \<lparr>name = ''email'', validator_func = is_valid_email lib,
      error_message = ''must be a valid email address'',
      description = ''Validates email addresses'', required = False\<rparr>"

definition required_rule :: ValidationRule where
  "required_rule =
     \<lparr>name = ''required'', validator_func = is_not_empty,
      error_message = ''is required and cannot be empty'',
      description = ''Ensures value is not None or empty'', required = True\<rparr>"

text \<open>
  The registry \<open>rules\<close> is a dictionary from key paths to lists of rules, in the order
  the key paths were first registered.
\<close>

record ConfigValidator =
  rules :: "(string \<times> ValidationRule list) list"
  built_in_rules :: "(string \<times> ValidationRule) list"

definition ConfigValidator_init :: "pylib \<Rightarrow> ConfigValidator" where
  "ConfigValidator_init lib =
     \<lparr>rules = [],
      built_in_rules =
        [(''url'', url_rule lib), (''port'', port_rule lib), (''email'', email_rule lib),
         (''required'', required_rule)]\<rparr>"

text \<open>The rule given to \<open>add_rule\<close> is the name of a built-in rule (\<open>Inl\<close>) or a rule.\<close>

definition add_rule ::
  "ConfigValidator \<Rightarrow> string \<Rightarrow> string + ValidationRule \<Rightarrow> exn + ConfigValidator" where
  "add_rule vd key_path rule =
     (case (case rule of
              Inl rule_name \<Rightarrow>
                (case map_of (built_in_rules vd) rule_name of
                   None \<Rightarrow> Inl ValueError
                 | Some r \<Rightarrow> Inr r)
            | Inr r \<Rightarrow> Inr r) of
        Inl err \<Rightarrow> Inl err
      | Inr r \<Rightarrow>
          Inr (vd\<lparr>rules :=
                 AList.update key_path
                   ((case map_of (rules vd) key_path of None \<Rightarrow> [] | Some rs \<Rightarrow> rs) @ [r])
                   (rules vd)\<rparr>))"

definition remove_rule :: "ConfigValidator \<Rightarrow> string \<Rightarrow> string option \<Rightarrow> ConfigValidator" where
  "remove_rule vd key_path rule_name =
     (case map_of (rules vd) key_path of
        None \<Rightarrow> vd
      | Some rs \<Rightarrow>
          (case rule_name of
             None \<Rightarrow> vd\<lparr>rules := AList.delete key_path (rules vd)\<rparr>
           | Some n \<Rightarrow>
               (let kept = filter (\<lambda>rule. name rule \<noteq> n) rs
                in if kept = [] then vd\<lparr>rules := AList.delete key_path (rules vd)\<rparr>
                   else vd\<lparr>rules := AList.update key_path kept (rules vd)\<rparr>)))"

text \<open>
  \<open>validate_loop\<close> is the loop of \<open>validate\<close> over \<open>self.rules.items()\<close>, with the list
  \<open>errors\<close> built so far. An exception of \<open>get_nested_value\<close> would leave the loop.
\<close>

fun validate_loop ::
  "pylib \<Rightarrow> pyvalue \<Rightarrow> (string \<times> ValidationRule list) list \<Rightarrow> string list \<Rightarrow> exn + string list"
  where
  "validate_loop lib config_data [] errors = Inr errors"
| "validate_loop lib config_data ((key_path, rs) # rest) errors =
     (case get_nested_value config_data key_path VNone of
        Inl err \<Rightarrow> Inl err
      | Inr val \<Rightarrow>
          if val = VNone then
            validate_loop lib config_data rest
              (if filter required rs \<noteq> []
               then errors @ [key_path @ '': Required key is missing'']
               else errors)
          else
            validate_loop lib config_data rest
              (errors @
               map (\<lambda>rule. key_path @ '': '' @ error_message rule @ '' (value: ''
                              @ py_str lib val @ '')'')
                 (filter (\<lambda>rule. \<not> rule_validate rule val) rs)))"

definition validate :: "pylib \<Rightarrow> ConfigValidator \<Rightarrow> pyvalue \<Rightarrow> bool \<Rightarrow> exn + string list" where
  "validate lib vd config_data raise_on_error =
     (case validate_loop lib config_data (rules vd) [] of
        Inl err \<Rightarrow> Inl err
      | Inr errors \<Rightarrow>
          if raise_on_error \<and> errors \<noteq> [] then Inl (ConfigValidationError errors)
          else Inr errors)"

text \<open>
  The errors that one turn of the loop of \<open>validate\<close> adds for an entry of the registry.
\<close>

definition key_errors :: "pylib \<Rightarrow> pyvalue \<Rightarrow> string \<times> ValidationRule list \<Rightarrow> string list" where
  "key_errors lib config_data entry =
     (case get_nested_value config_data (fst entry) VNone of
        Inl err \<Rightarrow> []
      | Inr val \<Rightarrow>
          if val = VNone then
            (if filter required (snd entry) \<noteq> []
             then [fst entry @ '': Required key is missing''] else [])
          else
            map (\<lambda>rule. fst entry @ '': '' @ error_message rule @ '' (value: ''
                           @ py_str lib val @ '')'')
              (filter (\<lambda>rule. \<not> rule_validate rule val) (snd entry)))"

section \<open>core.py\<close>

text \<open>
  The state of a \<open>ConfigManager\<close>. The methods are named \<open>cm_...\<close>; one that changes the
  manager returns the changed manager, and one that may raise returns a sum. The loaders
  are outside this model: what the check of the path, the choice of a loader and the
  loader itself give for a file is the argument \<open>file_outcome\<close> of \<open>cm_load_file\<close>.
\<close>

record ConfigManager =
  config_data :: pydict
  env_manager :: EnvironmentManager
  validator :: ConfigValidator
  loaded_files :: "string list"
  resolved_cache :: "pydict option"

definition ConfigManager_init :: "pylib \<Rightarrow> string \<Rightarrow> ConfigManager" where
  "ConfigManager_init lib var_name =
     \<lparr>config_data = [], env_manager = EnvironmentManager_init var_name,
      validator = ConfigValidator_init lib, loaded_files = [], resolved_cache = None\<rparr>"

datatype file_outcome = Missing | Unsupported | LoadFailed | Loaded pydict

definition cm_load_file :: "ConfigManager \<Rightarrow> string \<Rightarrow> file_outcome \<Rightarrow> exn + ConfigManager" where
  "cm_load_file cm file_path outcome =
     (case outcome of
        Missing \<Rightarrow> Inl FileNotFoundError
      | Unsupported \<Rightarrow> Inl ValueError
      | LoadFailed \<Rightarrow> Inl ValueError
      | Loaded file_data \<Rightarrow>
          Inr (cm\<lparr>config_data := deep_merge (config_data cm) file_data,
                   loaded_files := loaded_files cm @ [file_path],
                   resolved_cache := None\<rparr>))"

definition cm_load_dict :: "ConfigManager \<Rightarrow> pydict \<Rightarrow> ConfigManager" where
  "cm_load_dict cm config_dict =
     cm\<lparr>config_data := deep_merge (config_data cm) config_dict, resolved_cache := None\<rparr>"

definition cm_set_environment ::
  "ConfigManager \<Rightarrow> string + Environment \<Rightarrow> exn + ConfigManager" where
  "cm_set_environment cm environment =
     (case env_set_environment (env_manager cm) environment of
        Inl err \<Rightarrow> Inl err
      | Inr em \<Rightarrow> Inr (cm\<lparr>env_manager := em, resolved_cache := None\<rparr>))"

definition cm_apply_env_overrides :: "environ \<Rightarrow> ConfigManager \<Rightarrow> string \<Rightarrow> ConfigManager" where
  "cm_apply_env_overrides environ cm prefix =
     (let (overrides, em) = get_env_overrides environ prefix True (env_manager cm)
      in if overrides \<noteq> []
         then cm\<lparr>env_manager := em,
                 config_data := deep_merge (config_data cm) overrides,
                 resolved_cache := None\<rparr>
         else cm\<lparr>env_manager := em\<rparr>)"

definition cm_get ::
  "environ \<Rightarrow> ConfigManager \<Rightarrow> string \<Rightarrow> pyvalue \<Rightarrow> (exn + pyvalue) \<times> ConfigManager" where
  "cm_get environ cm key_path dflt =
     (let (env_key, em) = get_environment_config_key environ (env_manager cm) key_path;
          cm' = cm\<lparr>env_manager := em\<rparr>
      in case get_nested_value (VDict (config_data cm')) env_key VNone of
           Inl err \<Rightarrow> (Inl err, cm')
         | Inr env_val \<Rightarrow>
             if env_val \<noteq> VNone then (Inr env_val, cm')
             else (get_nested_value (VDict (config_data cm')) key_path dflt, cm'))"

definition cm_set :: "ConfigManager \<Rightarrow> string \<Rightarrow> pyvalue \<Rightarrow> ConfigManager" where
  "cm_set cm key_path val =
     cm\<lparr>config_data := set_nested_value (config_data cm) key_path val,
        resolved_cache := None\<rparr>"

definition cm_has :: "environ \<Rightarrow> ConfigManager \<Rightarrow> string \<Rightarrow> (exn + bool) \<times> ConfigManager" where
  "cm_has environ cm key_path =
     (let (env_key, em) = get_environment_config_key environ (env_manager cm) key_path;
          cm' = cm\<lparr>env_manager := em\<rparr>
      in case has_nested_key (VDict (config_data cm')) env_key of
           Inl err \<Rightarrow> (Inl err, cm')
         | Inr found \<Rightarrow>
             if found then (Inr True, cm')
             else (has_nested_key (VDict (config_data cm')) key_path, cm'))"

text \<open>
  \<open>delete\<close> walks with \<open>current_data[key]\<close> and no check of the type: on a dictionary a
  missing key raises \<open>KeyError\<close>, and any other value indexed by a string raises
  \<open>TypeError\<close>. At the end \<open>keys[-1] in current_data\<close> is a key test on a dictionary, a
  substring test on a string, a membership test on a list and a \<open>TypeError\<close> on the
  other values; \<open>del current_data[keys[-1]]\<close> removes a key of a dictionary and raises
  \<open>TypeError\<close> on a string or a list. \<open>delete_walk\<close> is the body of the \<open>try\<close>: it gives
  the value \<open>current_data\<close> after the walk and whether a key was deleted.
\<close>

fun is_substring :: "string \<Rightarrow> string \<Rightarrow> bool" where
  "is_substring k [] = (k = [])"
| "is_substring k (c # cs) = (take (length k) (c # cs) = k \<or> is_substring k cs)"

fun delete_walk :: "pyvalue \<Rightarrow> string list \<Rightarrow> string \<Rightarrow> exn + (pyvalue \<times> bool)" where
  "delete_walk current_data [] last_key =
     (case current_data of
        VDict d \<Rightarrow>
          if dict_has d last_key then Inr (VDict (dict_del d last_key), True)
          else Inr (current_data, False)
      | VStr s \<Rightarrow> if is_substring last_key s then Inl TypeError else Inr (current_data, False)
      | VList xs \<Rightarrow> if VStr last_key \<in> set xs then Inl TypeError else Inr (current_data, False)
      | _ \<Rightarrow> Inl TypeError)"
| "delete_walk current_data (key # keys) last_key =
     (case current_data of
        VDict d \<Rightarrow>
          (case dict_get d key of
             None \<Rightarrow> Inl KeyError
           | Some sub \<Rightarrow>
               (case delete_walk sub keys last_key of
                  Inl err \<Rightarrow> Inl err
                | Inr (sub', deleted) \<Rightarrow> Inr (VDict (dict_set d key sub'), deleted)))
      | _ \<Rightarrow> Inl TypeError)"

definition cm_delete :: "ConfigManager \<Rightarrow> string \<Rightarrow> exn + ConfigManager" where
  "cm_delete cm key_path =
     (let keys = split_path key_path
      in case delete_walk (VDict (config_data cm)) (butlast keys) (last keys) of
           Inl KeyError \<Rightarrow> Inr cm
         | Inl TypeError \<Rightarrow> Inr cm
         | Inl err \<Rightarrow> Inl err
         | Inr (VDict d, deleted) \<Rightarrow>
             Inr (cm\<lparr>config_data := d,
                     resolved_cache := (if deleted then None else resolved_cache cm)\<rparr>)
         | Inr (_, deleted) \<Rightarrow> Inr cm)"

definition cm_update :: "ConfigManager \<Rightarrow> pydict \<Rightarrow> ConfigManager" where
  "cm_update cm updates = fold (\<lambda>kv c. cm_set c (fst kv) (snd kv)) updates cm"

definition get_resolved_config ::
  "environ \<Rightarrow> bool \<Rightarrow> ConfigManager \<Rightarrow> pydict \<times> ConfigManager" where
  "get_resolved_config environ use_cache cm =
     (case (if use_cache then resolved_cache cm else None) of
        Some cached \<Rightarrow> (cached, cm)
      | None \<Rightarrow>
          (let resolved = config_data cm;
               (e, em) = current_environment environ (env_manager cm);
               env_key = env_value e;
               resolved =
                 (case dict_get resolved env_key of
                    None \<Rightarrow> resolved
                  | Some env_config \<Rightarrow>
                      (case env_config of
                         VDict d \<Rightarrow> deep_merge (dict_del resolved env_key) d
                       | _ \<Rightarrow> dict_del resolved env_key))
           in (resolved,
               cm\<lparr>env_manager := em,
                  resolved_cache := (if use_cache then Some resolved else resolved_cache cm)\<rparr>)))"

definition cm_validate ::
  "environ \<Rightarrow> pylib \<Rightarrow> ConfigManager \<Rightarrow> bool \<Rightarrow> (exn + string list) \<times> ConfigManager" where
  "cm_validate environ lib cm raise_on_error =
     (let (resolved_config, cm') = get_resolved_config environ True cm
      in (validate lib (validator cm') (VDict resolved_config) raise_on_error, cm'))"

definition cm_add_validation_rule ::
  "ConfigManager \<Rightarrow> string \<Rightarrow> string + ValidationRule \<Rightarrow> exn + ConfigManager" where
  "cm_add_validation_rule cm key_path rule =
     (case add_rule (validator cm) key_path rule of
        Inl err \<Rightarrow> Inl err
      | Inr vd \<Rightarrow> Inr (cm\<lparr>validator := vd\<rparr>))"

definition cm_remove_validation_rule ::
  "ConfigManager \<Rightarrow> string \<Rightarrow> string option \<Rightarrow> ConfigManager" where
  "cm_remove_validation_rule cm key_path rule_name =
     cm\<lparr>validator := remove_rule (validator cm) key_path rule_name\<rparr>"

definition cm_clear :: "ConfigManager \<Rightarrow> ConfigManager" where
  "cm_clear cm = cm\<lparr>config_data := [], loaded_files := [], resolved_cache := None\<rparr>"

text \<open>
  \<open>reload\<close> clears the manager and loads the recorded files again, skipping a file that
  is no longer there; \<open>fs\<close> gives the outcome of loading each path. An exception of
  \<open>load_file\<close> leaves the loop with the manager as it then is.
\<close>

fun reload_loop ::
  "(string \<Rightarrow> file_outcome) \<Rightarrow> string list \<Rightarrow> ConfigManager \<Rightarrow> exn option \<times> ConfigManager"
  where
  "reload_loop fs [] cm = (None, cm)"
| "reload_loop fs (file_path # files) cm =
     (if fs file_path \<noteq> Missing then
        (case cm_load_file cm file_path (fs file_path) of
           Inl err \<Rightarrow> (Some err, cm)
         | Inr cm' \<Rightarrow> reload_loop fs files cm')
      else reload_loop fs files cm)"

definition cm_reload ::
  "(string \<Rightarrow> file_outcome) \<Rightarrow> ConfigManager \<Rightarrow> exn option \<times> ConfigManager" where
  "cm_reload fs cm =
     (let files_to_reload = loaded_files cm
      in reload_loop fs files_to_reload
           (cm\<lparr>config_data := [], loaded_files := [], resolved_cache := None\<rparr>))"

section \<open>Sequences of operations on a manager\<close>

text \<open>
  A session is a sequence of calls of the methods of one \<open>ConfigManager\<close>, between which
  the process environment may change. \<open>step\<close> gives the process environment and the
  manager after one call; the value a call returns or the exception it raises is dropped,
  the manager is kept as the call leaves it.
\<close>

datatype op =
    LoadFile string file_outcome
  | LoadDict pydict
  | SetEnvironment "string + Environment"
  | ApplyEnvOverrides string
  | Get string pyvalue
  | SetValue string pyvalue
  | Has string
  | Delete string
  | Update pydict
  | GetResolvedConfig bool
  | Validate bool
  | AddValidationRule string "string + ValidationRule"
  | RemoveValidationRule string "string option"
  | Reload "string \<Rightarrow> file_outcome"
  | Clear
  | PutEnv string string
  | UnsetEnv string

record world =
  os_environ :: environ
  manager :: ConfigManager

definition or_unchanged :: "ConfigManager \<Rightarrow> exn + ConfigManager \<Rightarrow> ConfigManager" where
  "or_unchanged cm r = (case r of Inl _ \<Rightarrow> cm | Inr cm' \<Rightarrow> cm')"

fun step :: "pylib \<Rightarrow> op \<Rightarrow> world \<Rightarrow> world" where
  "step lib (LoadFile file_path outcome) w =
     w\<lparr>manager := or_unchanged (manager w) (cm_load_file (manager w) file_path outcome)\<rparr>"
| "step lib (LoadDict config_dict) w = w\<lparr>manager := cm_load_dict (manager w) config_dict\<rparr>"
| "step lib (SetEnvironment environment) w =
     w\<lparr>manager := or_unchanged (manager w) (cm_set_environment (manager w) environment)\<rparr>"
| "step lib (ApplyEnvOverrides prefix) w =
     w\<lparr>manager := cm_apply_env_overrides (os_environ w) (manager w) prefix\<rparr>"
| "step lib (Get key_path dflt) w =
     w\<lparr>manager := snd (cm_get (os_environ w) (manager w) key_path dflt)\<rparr>"
| "step lib (SetValue key_path val) w = w\<lparr>manager := cm_set (manager w) key_path val\<rparr>"
| "step lib (Has key_path) w = w\<lparr>manager := snd (cm_has (os_environ w) (manager w) key_path)\<rparr>"
| "step lib (Delete key_path) w =
     w\<lparr>manager := or_unchanged (manager w) (cm_delete (manager w) key_path)\<rparr>"
| "step lib (Update updates) w = w\<lparr>manager := cm_update (manager w) updates\<rparr>"
| "step lib (GetResolvedConfig use_cache) w =
     w\<lparr>manager := snd (get_resolved_config (os_environ w) use_cache (manager w))\<rparr>"
| "step lib (Validate raise_on_error) w =
     w\<lparr>manager := snd (cm_validate (os_environ w) lib (manager w) raise_on_error)\<rparr>"
| "step lib (AddValidationRule key_path rule) w =
     w\<lparr>manager := or_unchanged (manager w) (cm_add_validation_rule (manager w) key_path rule)\<rparr>"
| "step lib (RemoveValidationRule key_path rule_name) w =
     w\<lparr>manager := cm_remove_validation_rule (manager w) key_path rule_name\<rparr>"
| "step lib (Reload fs) w = w\<lparr>manager := snd (cm_reload fs (manager w))\<rparr>"
| "step lib Clear w = w\<lparr>manager := cm_clear (manager w)\<rparr>"
| "step lib (PutEnv k v) w = w\<lparr>os_environ := AList.update k v (os_environ w)\<rparr>"
| "step lib (UnsetEnv k) w = w\<lparr>os_environ := AList.delete k (os_environ w)\<rparr>"

definition run :: "pylib \<Rightarrow> op list \<Rightarrow> world \<Rightarrow> world" where
  "run lib ops w = fold (step lib) ops w"

definition fresh_world :: "pylib \<Rightarrow> environ \<Rightarrow> string \<Rightarrow> world" where
  "fresh_world lib environ var_name =
     \<lparr>os_environ = environ, manager = ConfigManager_init lib var_name\<rparr>"

section \<open>Paths of a tree\<close>

text \<open>
  \<open>join_path\<close> writes a list of segments as a key path. \<open>flat_paths\<close> lists the leaves of a
  tree, each with the segments that lead to it: a leaf is any value that is not a
  dictionary. \<open>flat_ok\<close> holds for a dictionary below the top level when it is not empty,
  its keys are distinct and free of the separator, and the dictionaries in it are of this
  kind again. \<open>flat_top\<close> holds for a tree whose keys are distinct and free of the
  separator, whose dictionaries are \<open>flat_ok\<close>, and in which the empty key, if it is
  there, does not hold a dictionary.
\<close>

fun join_path :: "string list \<Rightarrow> string" where
  "join_path [] = []"
| "join_path [k] = k"
| "join_path (k # p) = k @ [separator] @ join_path p"

fun flat_paths :: "pydict \<Rightarrow> (string list \<times> pyvalue) list" where
  "flat_paths [] = []"
| "flat_paths ((k, v) # d) =
     (case v of
        VDict sub \<Rightarrow> map (\<lambda>px. (k # fst px, snd px)) (flat_paths sub)
      | _ \<Rightarrow> [([k], v)])
     @ flat_paths d"

fun flat_ok :: "pyvalue \<Rightarrow> bool" where
  "flat_ok (VDict d) =
     (d \<noteq> [] \<and> distinct (map fst d)
      \<and> list_all (\<lambda>kv. separator \<notin> set (fst kv) \<and> flat_ok (snd kv)) d)"
| "flat_ok _ = True"

definition flat_top :: "pydict \<Rightarrow> bool" where
  "flat_top t =
     (distinct (map fst t)
      \<and> list_all (\<lambda>kv. separator \<notin> set (fst kv) \<and> flat_ok (snd kv)
                        \<and> \<not> (fst kv = [] \<and> is_dict (snd kv))) t)"

section \<open>deep_merge on a heap of objects\<close>















text \<open>The value that one turn of the loop of \<open>deep_merge\<close> stores at a key.\<close>

definition merge_value :: "pyvalue option \<Rightarrow> pyvalue \<Rightarrow> pyvalue" where
  "merge_value old new =
     (case (old, new) of
        (Some (VDict b), VDict v) \<Rightarrow> VDict (deep_merge b v)
      | _ \<Rightarrow> deepcopy new)"

text \<open>
  The resolution of a raw tree under an environment, as \<open>get_resolved_config\<close> computes
  it when it does not answer from its cache, and the environment that the property
  \<open>current_environment\<close> of the manager gives.
\<close>

definition resolve_for :: "pydict \<Rightarrow> Environment \<Rightarrow> pydict" where
  "resolve_for cfg e =
     (case dict_get cfg (env_value e) of
        None \<Rightarrow> cfg
      | Some (VDict d) \<Rightarrow> deep_merge (dict_del cfg (env_value e)) d
      | Some _ \<Rightarrow> dict_del cfg (env_value e))"

definition active_environment :: "environ \<Rightarrow> ConfigManager \<Rightarrow> Environment" where
  "active_environment environ cm = fst (current_environment environ (env_manager cm))"

text \<open>
  The cache of the resolved configuration is coherent when it is empty, or holds the
  resolution of the raw tree under the environment stored in the environment manager.
\<close>

definition cache_coherent :: "ConfigManager \<Rightarrow> bool" where
  "cache_coherent cm =
     (case resolved_cache cm of
        None \<Rightarrow> True
      | Some cached \<Rightarrow>
          (case current_env (env_manager cm) of
             None \<Rightarrow> False
           | Some e \<Rightarrow> cached = resolve_for (config_data cm) e))"

text \<open>
  The value that a path resolves to in a tree, as the specification words a lookup: from
  the tree, each segment in turn is looked up in the nested structure reached so far; the
  path does not resolve when a segment is missing there, or when what was reached is not
  a nested structure and a segment is left. The empty list of segments resolves to the
  tree itself.
\<close>

fun lookup_path :: "pyvalue \<Rightarrow> string list \<Rightarrow> pyvalue option" where
  "lookup_path v [] = Some v"
| "lookup_path (VDict d) (seg # segs) =
     (case dict_get d seg of
        None \<Rightarrow> None
      | Some inner \<Rightarrow> lookup_path inner segs)"
| "lookup_path _ (seg # segs) = None"

text \<open>
  The conversion of the value of an environment variable as the specification words it:
  an integer when the value reads as one and has no \<open>.\<close>, \<open>e\<close> or \<open>E\<close>; else a float when
  it reads as one; else the string. It is compared with \<open>convert_env_value\<close> below.
\<close>

definition spec_convert_env_value :: "string \<Rightarrow> pyvalue" where
  "spec_convert_env_value val =
     (if val = [] then VStr []
      else if py_lower val \<in> set [''true'', ''yes'', ''1'', ''on'', ''enabled''] then VBool True
      else if py_lower val \<in> set [''false'', ''no'', ''0'', ''off'', ''disabled''] then VBool False
      else if py_int val \<noteq> None \<and> CHR ''.'' \<notin> set val \<and> CHR ''e'' \<notin> set val
                \<and> CHR ''E'' \<notin> set val
        then (case py_int val of Some n \<Rightarrow> VInt n | None \<Rightarrow> VStr val)
      else (case py_float val of Some f \<Rightarrow> VFloat f | None \<Rightarrow> VStr val))"

text \<open>
  A library for the examples below, none of which calls a function of the library.
\<close>

definition example_lib :: pylib where
  "example_lib =
     \<lparr>py_str = (\<lambda>v. case v of VStr s \<Rightarrow> s | _ \<Rightarrow> []),
      urlparse = (\<lambda>s. None),
      email_match = (\<lambda>s. False),
      int_of_value = (\<lambda>v. case v of VInt n \<Rightarrow> Some n | _ \<Rightarrow> None)\<rparr>"

section \<open>Properties of deep_merge\<close>

lemma deep_merge_step:
  "deep_merge base ((key, val) # overlay) =
     deep_merge (dict_set base key (merge_value (dict_get base key) val)) overlay"
  by (simp add: merge_value_def split: option.split pyvalue.split)


lemma deep_merge_distinct:
  "distinct (map fst base) \<Longrightarrow> distinct (map fst (deep_merge base overlay))"
proof (induction overlay arbitrary: base)
  case Nil
  then show ?case by simp
next
  case (Cons kv overlay)
  obtain key val where kv: "kv = (key, val)" by (cases kv)
  show ?case
    unfolding kv deep_merge_step
    by (rule Cons.IH) (simp add: Cons.prems distinct_update)
qed


lemma dict_set_new_key:
  "k \<notin> fst ` set d \<Longrightarrow> dict_set d k v = d @ [(k, v)]"
  by (induction d) auto

lemma deep_merge_disjoint:
  "distinct (map fst a) \<Longrightarrow> fst ` set a \<inter> fst ` set r = {} \<Longrightarrow> deep_merge r a = r @ a"
proof (induction a arbitrary: r)
  case Nil
  then show ?case by simp
next
  case (Cons kv a)
  obtain key val where kv: "kv = (key, val)" by (cases kv)
  from Cons.prems have nin: "key \<notin> fst ` set r" by (auto simp: kv)
  then have none: "dict_get r key = None" by (simp add: map_of_eq_None_iff)
  have "deep_merge (r @ [(key, val)]) a = (r @ [(key, val)]) @ a"
    using Cons.prems by (intro Cons.IH) (auto simp: kv)
  then show ?case
    unfolding kv deep_merge_step
    by (simp add: none merge_value_def deepcopy_def dict_set_new_key [OF nin])
qed

lemma deep_merge_empty_base:
  "distinct (map fst a) \<Longrightarrow> deep_merge [] a = a"
  using deep_merge_disjoint [of a "[]"] by simp



lemma wf_dict_del:
  assumes "wf_dict d"
  shows "wf_dict (dict_del d k)"
proof -
  have "distinct (map fst (dict_del d k))"
    using assms by (simp add: distinct_delete)
  moreover have "set (dict_del d k) \<subseteq> set d"
    by (auto simp: AList.delete_eq)
  ultimately show ?thesis
    using assms by (auto simp: list_all_iff)
qed


subsection \<open>The heap is only extended\<close>






























text \<open>
  Claim C5. Loading a dictionary \<open>a\<close> and then a dictionary \<open>b\<close> into a manager that was
  just made leaves the raw tree \<open>deep_merge a b\<close>, and so does one load of the merged
  dictionary \<open>deep_merge a b\<close>. The keys of the dictionary \<open>a\<close> are distinct, as the keys
  of a dictionary are.
\<close>

theorem sequential_loads_equal_merged_load:
  assumes "distinct (map fst a)"
  shows "config_data (cm_load_dict (cm_load_dict (ConfigManager_init lib var_name) a) b)
           = deep_merge a b
       \<and> config_data (cm_load_dict (ConfigManager_init lib var_name) (deep_merge a b))
           = deep_merge a b"
proof -
  have first: "config_data (cm_load_dict (ConfigManager_init lib var_name) a) = a"
    by (simp add: cm_load_dict_def ConfigManager_init_def deep_merge_empty_base [OF assms])
  have merged: "distinct (map fst (deep_merge a b))"
    by (rule deep_merge_distinct [OF assms])
  have "config_data (cm_load_dict (cm_load_dict (ConfigManager_init lib var_name) a) b)
          = deep_merge a b"
    using first by (simp add: cm_load_dict_def)
  moreover have "config_data (cm_load_dict (ConfigManager_init lib var_name) (deep_merge a b))
          = deep_merge a b"
    by (simp add: cm_load_dict_def ConfigManager_init_def deep_merge_empty_base [OF merged])
  ultimately show ?thesis by simp
qed

theorem sequential_loads_witness:
  "\<forall>lib.
     distinct (map fst
       [(''database'', VDict [(''host'', VStr ''first''), (''port'', VInt 5432),
                              (''ssl'', VBool False)])])
     \<and> config_data
         (cm_load_dict
           (cm_load_dict (ConfigManager_init lib ''APP_ENV'')
              [(''database'', VDict [(''host'', VStr ''first''), (''port'', VInt 5432),
                                     (''ssl'', VBool False)])])
           [(''database'', VDict [(''host'', VStr ''second''), (''ssl'', VBool True)])])
       = [(''database'', VDict [(''host'', VStr ''second''), (''port'', VInt 5432),
                                (''ssl'', VBool True)])]"
proof
  fix lib
  have d: "distinct (map fst
       [(''database'', VDict [(''host'', VStr ''first''), (''port'', VInt 5432),
                              (''ssl'', VBool False)])])"
    by simp
  show "distinct (map fst
       [(''database'', VDict [(''host'', VStr ''first''), (''port'', VInt 5432),
                              (''ssl'', VBool False)])])
     \<and> config_data
         (cm_load_dict
           (cm_load_dict (ConfigManager_init lib ''APP_ENV'')
              [(''database'', VDict [(''host'', VStr ''first''), (''port'', VInt 5432),
                                     (''ssl'', VBool False)])])
           [(''database'', VDict [(''host'', VStr ''second''), (''ssl'', VBool True)])])
       = [(''database'', VDict [(''host'', VStr ''second''), (''port'', VInt 5432),
                                (''ssl'', VBool True)])]"
    using d sequential_loads_equal_merged_load [OF d, of lib "''APP_ENV''"
        "[(''database'', VDict [(''host'', VStr ''second''), (''ssl'', VBool True)])]"]
    by (simp add: deepcopy_def)
qed

section \<open>Resolution of the active environment\<close>

lemma get_resolved_config_uncached:
  "resolved_cache cm = None \<or> \<not> use_cache \<Longrightarrow>
   get_resolved_config environ use_cache cm =
     (resolve_for (config_data cm) (active_environment environ cm),
      cm\<lparr>env_manager := snd (current_environment environ (env_manager cm)),
         resolved_cache :=
           (if use_cache then Some (resolve_for (config_data cm) (active_environment environ cm))
            else resolved_cache cm)\<rparr>)"
  by (auto simp: get_resolved_config_def resolve_for_def active_environment_def Let_def
      split: prod.split option.split pyvalue.split)

text \<open>
  Claim C1, as the code has it. With an empty cache, \<open>get_resolved_config\<close> returns the raw
  tree when no top-level key is the identifier of the active environment. When there is
  such a key it is removed; a dictionary under it is merged over the rest with
  \<open>deep_merge\<close>, and any other value under it is dropped, so that the result then has
  no such key.
\<close>

theorem resolved_config_env_block:
  "fst (get_resolved_config environ use_cache (cm\<lparr>resolved_cache := None\<rparr>)) =
     (let env_key = env_value (active_environment environ cm)
      in case dict_get (config_data cm) env_key of
           None \<Rightarrow> config_data cm
         | Some (VDict d) \<Rightarrow> deep_merge (dict_del (config_data cm) env_key) d
         | Some _ \<Rightarrow> dict_del (config_data cm) env_key)
   \<and> (case dict_get (config_data cm) (env_value (active_environment environ cm)) of
         Some (VDict d) \<Rightarrow> True
       | _ \<Rightarrow> env_value (active_environment environ cm)
               \<notin> fst ` set (fst (get_resolved_config environ use_cache
                                    (cm\<lparr>resolved_cache := None\<rparr>))))"
proof -
  let ?ek = "env_value (active_environment environ cm)"
  let ?r = "fst (get_resolved_config environ use_cache (cm\<lparr>resolved_cache := None\<rparr>))"
  have eq: "?r = resolve_for (config_data cm) (active_environment environ cm)"
    by (subst get_resolved_config_uncached) (simp_all add: active_environment_def)
  have first: "?r =
     (let env_key = ?ek
      in case dict_get (config_data cm) env_key of
           None \<Rightarrow> config_data cm
         | Some (VDict d) \<Rightarrow> deep_merge (dict_del (config_data cm) env_key) d
         | Some _ \<Rightarrow> dict_del (config_data cm) env_key)"
    unfolding eq by (simp add: resolve_for_def Let_def)
  have gone: "?ek \<notin> fst ` set (dict_del (config_data cm) ?ek)"
    by (simp add: delete_notin_dom)
  have second: "(case dict_get (config_data cm) ?ek of
         Some (VDict d) \<Rightarrow> True
       | _ \<Rightarrow> ?ek \<notin> fst ` set ?r)"
  proof (cases "dict_get (config_data cm) ?ek")
    case None
    then have "?ek \<notin> fst ` set (config_data cm)"
      by (simp add: map_of_eq_None_iff)
    then show ?thesis
      unfolding eq by (simp add: None resolve_for_def)
  next
    case (Some v)
    then show ?thesis
      unfolding eq using gone by (cases v) (simp_all add: resolve_for_def)
  qed
  from first second show ?thesis by blast
qed

text \<open>
  The claim as it was stated lets a value that is not a dictionary stay under its key.
  With the raw tree \<open>{"development": "on", "debug": False}\<close> and the environment
  \<open>development\<close>, the resolved configuration is \<open>{"debug": False}\<close>.
\<close>

theorem resolved_config_scalar_env_block_dropped:
  "config_data (cm_load_dict (ConfigManager_init example_lib ''APP_ENV'')
       [(''development'', VStr ''on''), (''debug'', VBool False)])
     = [(''development'', VStr ''on''), (''debug'', VBool False)]
   \<and> fst (get_resolved_config [] True
       (cm_load_dict (ConfigManager_init example_lib ''APP_ENV'')
          [(''development'', VStr ''on''), (''debug'', VBool False)]))
     = [(''debug'', VBool False)]"
  by code_simp

section \<open>Values of environment variables\<close>

lemma py_lower_char_e: "py_lower_char c = CHR ''e'' \<longleftrightarrow> c = CHR ''e'' \<or> c = CHR ''E''"
proof -
  have a: "py_lower_char (CHR ''E'') = CHR ''e''" by code_simp
  have b: "py_lower_char (CHR ''e'') = CHR ''e''" by code_simp
  have c: "py_lower_char c = CHR ''e'' \<Longrightarrow> c = CHR ''e'' \<or> c = CHR ''E''"
  proof -
    assume h: "py_lower_char c = CHR ''e''"
    show ?thesis
    proof (cases "py_lower_char c = c")
      case True
      with h show ?thesis by simp
    next
      case False
      then have "py_lower_char c = char_of (of_char c + 32 :: nat)"
        by (auto simp: py_lower_char_def Let_def split: if_splits)
      with h have "of_char (char_of (of_char c + 32 :: nat) :: char) = (101 :: nat)" by simp
      moreover from False have "(of_char c :: nat) + 32 < 256"
        by (auto simp: py_lower_char_def Let_def split: if_splits)
      ultimately have "(of_char c :: nat) = 69" by (simp add: of_char_of)
      then have "c = char_of (69 :: nat)" by (metis char_of_char)
      moreover have "char_of (69 :: nat) = CHR ''E''" by code_simp
      ultimately show ?thesis by simp
    qed
  qed
  show ?thesis using a b c by blast
qed

lemma e_in_py_lower:
  "CHR ''e'' \<in> set (py_lower val) \<longleftrightarrow> CHR ''e'' \<in> set val \<or> CHR ''E'' \<in> set val"
proof -
  have "CHR ''e'' \<in> set (py_lower val) \<longleftrightarrow> (\<exists>c \<in> set val. CHR ''e'' = py_lower_char c)"
    by (simp add: py_lower_def image_iff)
  also have "\<dots> \<longleftrightarrow> (\<exists>c \<in> set val. c = CHR ''e'' \<or> c = CHR ''E'')"
    by (metis py_lower_char_e)
  also have "\<dots> \<longleftrightarrow> CHR ''e'' \<in> set val \<or> CHR ''E'' \<in> set val"
    by auto
  finally show ?thesis .
qed

text \<open>
  The numerals of \<open>int\<close> and \<open>float\<close>: a separator (28 to 31) before or after the digits
  makes the value no numeral, and it stays a string, while a space above the ASCII range
  is skipped. A string of digits is the integer it writes when it has at most
  \<open>int_max_str_digits\<close> digits, and is refused when it has more.
\<close>

lemma numerals_and_separators:
  "py_int [CHR 0x1C, CHR ''3''] = None
   \<and> py_int [CHR ''3'', CHR 0x1F] = None
   \<and> py_int [CHR 0xA0, CHR ''3'', CHR 0x0A] = Some 3
   \<and> py_float [CHR 0x1D, CHR ''3'', CHR ''.'', CHR ''0''] = None
   \<and> py_float [CHR 0x85, CHR ''3'', CHR ''.'', CHR ''0''] = Some (FFinite False 30 (- 1))
   \<and> convert_env_value [CHR 0x1C, CHR ''3''] = VStr [CHR 0x1C, CHR ''3'']
   \<and> convert_env_value [CHR ''3'', CHR 0x1F] = VStr [CHR ''3'', CHR 0x1F]"
  by code_simp

lemma digit_not_space: "is_digit c \<Longrightarrow> \<not> num_isspace c"
  by (auto simp: is_digit_def num_isspace_def Let_def)

lemma num_strip_digits: "list_all is_digit ds \<Longrightarrow> num_strip ds = ds"
proof (cases ds rule: rev_cases)
  case Nil
  then show ?thesis by (simp add: num_strip_def)
next
  case (snoc ys y)
  assume a: "list_all is_digit ds"
  show ?thesis
  proof (cases ds)
    case Nil
    then show ?thesis by (simp add: num_strip_def)
  next
    case (Cons c cs)
    with a have "\<not> num_isspace c" by (simp add: digit_not_space)
    with Cons have 1: "dropWhile num_isspace ds = ds" by simp
    from a snoc have "\<not> num_isspace y" by (simp add: digit_not_space)
    with snoc have 2: "dropWhile num_isspace (rev ds) = rev ds" by simp
    show ?thesis by (simp add: num_strip_def 1 2)
  qed
qed

lemma digit_not_underscore: "is_digit c \<Longrightarrow> c \<noteq> CHR ''_''"
  by (auto simp: is_digit_def Let_def)

lemma strip_underscores_digits:
  "list_all is_digit ds \<Longrightarrow> prev \<noteq> CHR ''_'' \<Longrightarrow> strip_underscores prev ds = Some ds"
proof (induction ds arbitrary: prev)
  case Nil
  then show ?case by simp
next
  case (Cons c cs)
  then have "c \<noteq> CHR ''_''" by (simp add: digit_not_underscore)
  with Cons show ?case by simp
qed

lemma digit_not_sign: "is_digit c \<Longrightarrow> c \<noteq> CHR ''-'' \<and> c \<noteq> CHR ''+''"
  by (auto simp: is_digit_def Let_def)

lemma take_sign_digits: "list_all is_digit ds \<Longrightarrow> take_sign ds = (False, ds)"
  by (cases ds) (simp_all add: take_sign_def digit_not_sign)

lemma int_max_str_digits_pos: "0 < int_max_str_digits"
  by (simp add: int_max_str_digits_def)

lemma py_int_digit_limit:
  assumes "list_all is_digit ds" and "int_max_str_digits < length ds"
  shows "py_int ds = None"
proof -
  from assms(2) have "ds \<noteq> []" by auto
  with assms show ?thesis
    by (simp add: py_int_def num_strip_digits take_sign_digits strip_underscores_digits
          int_max_str_digits_pos)
qed

lemma py_int_digits:
  assumes "list_all is_digit ds" and "ds \<noteq> []" and "length ds \<le> int_max_str_digits"
  shows "py_int ds = Some (int (digits_value ds))"
  using assms
  by (simp add: py_int_def num_strip_digits take_sign_digits strip_underscores_digits)

text \<open>
  Claim C2, as the code has it. \<open>convert_env_value\<close> gives the empty string for the
  empty string, \<open>True\<close> and \<open>False\<close> for the two lists of words in any case, and then
  chooses one reading by the characters of the value: without \<open>.\<close>, \<open>e\<close> and \<open>E\<close> the value
  is read as an integer, and is kept as a string when that fails; with one of them it is
  read as a float, and is kept as a string when that fails. The variable
  \<open>CONFIG_DATABASE_PORT=5432\<close> with the prefix \<open>CONFIG_\<close> gives
  \<open>{"database": {"port": 5432}}\<close> with an integer.
\<close>

theorem convert_env_value_precedence:
  "convert_env_value val =
     (if val = [] then VStr []
      else if py_lower val \<in> {''true'', ''yes'', ''1'', ''on'', ''enabled''} then VBool True
      else if py_lower val \<in> {''false'', ''no'', ''0'', ''off'', ''disabled''} then VBool False
      else if CHR ''.'' \<notin> set val \<and> CHR ''e'' \<notin> set val \<and> CHR ''E'' \<notin> set val
        then (case py_int val of Some n \<Rightarrow> VInt n | None \<Rightarrow> VStr val)
      else (case py_float val of Some f \<Rightarrow> VFloat f | None \<Rightarrow> VStr val))
   \<and> fst (get_env_overrides [(''CONFIG_DATABASE_PORT'', ''5432'')] ''CONFIG_'' True
            (EnvironmentManager_init ''APP_ENV''))
       = [(''database'', VDict [(''port'', VInt 5432)])]"
proof -
  have "fst (get_env_overrides [(''CONFIG_DATABASE_PORT'', ''5432'')] ''CONFIG_'' True
            (EnvironmentManager_init ''APP_ENV''))
       = [(''database'', VDict [(''port'', VInt 5432)])]"
    by code_simp
  moreover have "convert_env_value val =
     (if val = [] then VStr []
      else if py_lower val \<in> {''true'', ''yes'', ''1'', ''on'', ''enabled''} then VBool True
      else if py_lower val \<in> {''false'', ''no'', ''0'', ''off'', ''disabled''} then VBool False
      else if CHR ''.'' \<notin> set val \<and> CHR ''e'' \<notin> set val \<and> CHR ''E'' \<notin> set val
        then (case py_int val of Some n \<Rightarrow> VInt n | None \<Rightarrow> VStr val)
      else (case py_float val of Some f \<Rightarrow> VFloat f | None \<Rightarrow> VStr val))"
    unfolding convert_env_value_def Let_def e_in_py_lower
    by (simp split: option.split)
  ultimately show ?thesis by blast
qed

text \<open>
  The claim as it was stated reads a value as a float whenever it does not read as an
  integer. The value \<open>inf\<close> reads as a float and not as an integer, and has no \<open>.\<close>, \<open>e\<close>
  or \<open>E\<close>: the code keeps it as the string.
\<close>

theorem convert_env_value_inf_stays_string:
  "convert_env_value ''inf'' = VStr ''inf''
   \<and> spec_convert_env_value ''inf'' = VFloat (FInf False)"
  by code_simp


section \<open>The cache of environment overrides\<close>

text \<open>
  Claim C9. The cache of \<open>get_env_overrides\<close> is looked up without the prefix. After the
  cache is cleared, a first call with the prefix \<open>p1\<close> computes the overrides of \<open>p1\<close> and
  stores them; a second call with any prefix \<open>p2\<close>, whatever the process environment
  then is, returns the stored overrides of \<open>p1\<close> and leaves the manager as it is.
  So \<open>apply_env_overrides\<close> with \<open>p1\<close> and then with \<open>p2\<close> merges the overrides of \<open>p1\<close>
  twice. With the variables \<open>A_X=1\<close> and \<open>B_Y=2\<close>, the call with \<open>B_\<close> after the call with
  \<open>A_\<close> returns \<open>{"x": True}\<close>, where a call without the cache returns \<open>{"y": 2}\<close>.
\<close>

theorem env_overrides_cache_ignores_prefix:
  "(let em0 = clear_cache em;
        (r1, em1) = get_env_overrides environ1 p1 True em0;
        (r2, em2) = get_env_overrides environ2 p2 True em1
    in r1 = fold (env_override_step p1) environ1 []
       \<and> r2 = r1
       \<and> em2 = em1)
   \<and> (let cm0 = cm\<lparr>env_manager := clear_cache (env_manager cm)\<rparr>;
           ov1 = fold (env_override_step p1) environ1 [];
           cm2 = cm_apply_env_overrides environ2 (cm_apply_env_overrides environ1 cm0 p1) p2
       in config_data cm2 =
            (if ov1 = [] then config_data cm
             else deep_merge (deep_merge (config_data cm) ov1) ov1))
   \<and> fst (get_env_overrides [(''A_X'', ''1''), (''B_Y'', ''2'')] ''B_'' True
          (snd (get_env_overrides [(''A_X'', ''1''), (''B_Y'', ''2'')] ''A_'' True
                  (EnvironmentManager_init ''APP_ENV''))))
       = [(''x'', VBool True)]
   \<and> fst (get_env_overrides [(''A_X'', ''1''), (''B_Y'', ''2'')] ''B_'' False
          (snd (get_env_overrides [(''A_X'', ''1''), (''B_Y'', ''2'')] ''A_'' True
                  (EnvironmentManager_init ''APP_ENV''))))
       = [(''y'', VInt 2)]"
proof -
  have a: "(let em0 = clear_cache em;
        (r1, em1) = get_env_overrides environ1 p1 True em0;
        (r2, em2) = get_env_overrides environ2 p2 True em1
    in r1 = fold (env_override_step p1) environ1 []
       \<and> r2 = r1
       \<and> em2 = em1)"
    by (simp add: get_env_overrides_def clear_cache_def Let_def)
  have b: "(let cm0 = cm\<lparr>env_manager := clear_cache (env_manager cm)\<rparr>;
           ov1 = fold (env_override_step p1) environ1 [];
           cm2 = cm_apply_env_overrides environ2 (cm_apply_env_overrides environ1 cm0 p1) p2
       in config_data cm2 =
            (if ov1 = [] then config_data cm
             else deep_merge (deep_merge (config_data cm) ov1) ov1))"
    by (simp add: cm_apply_env_overrides_def get_env_overrides_def clear_cache_def Let_def)
  have c: "fst (get_env_overrides [(''A_X'', ''1''), (''B_Y'', ''2'')] ''B_'' True
          (snd (get_env_overrides [(''A_X'', ''1''), (''B_Y'', ''2'')] ''A_'' True
                  (EnvironmentManager_init ''APP_ENV''))))
       = [(''x'', VBool True)]"
    by code_simp
  have d: "fst (get_env_overrides [(''A_X'', ''1''), (''B_Y'', ''2'')] ''B_'' False
          (snd (get_env_overrides [(''A_X'', ''1''), (''B_Y'', ''2'')] ''A_'' True
                  (EnvironmentManager_init ''APP_ENV''))))
       = [(''y'', VInt 2)]"
    by code_simp
  from a b c d show ?thesis by blast
qed

section \<open>Validation and the state of the manager\<close>

text \<open>
  Claim C10, as the code has it. \<open>ConfigManager.validate\<close> leaves the raw tree, the
  validator with its registry, the list of loaded files and the cache of overrides as
  they are, whether it returns the errors or raises. It reads the resolved configuration
  through \<open>get_resolved_config\<close> with the cache in use: a filled cache stays as it is,
  and an empty cache is filled with the resolution of the raw tree under the active
  environment, which is then stored in the environment manager as well.
\<close>

theorem validate_fills_resolved_cache:
  "(let (result, cm') = cm_validate environ lib cm raise_on_error
    in config_data cm' = config_data cm
       \<and> validator cm' = validator cm
       \<and> loaded_files cm' = loaded_files cm
       \<and> env_overrides_cache (env_manager cm') = env_overrides_cache (env_manager cm)
       \<and> resolved_cache cm' =
           (case resolved_cache cm of
              Some cached \<Rightarrow> Some cached
            | None \<Rightarrow> Some (resolve_for (config_data cm) (active_environment environ cm)))
       \<and> current_env (env_manager cm') =
           (case resolved_cache cm of
              Some cached \<Rightarrow> current_env (env_manager cm)
            | None \<Rightarrow> Some (active_environment environ cm))
       \<and> result = validate lib (validator cm)
                     (VDict (case resolved_cache cm of
                               Some cached \<Rightarrow> cached
                             | None \<Rightarrow> resolve_for (config_data cm)
                                         (active_environment environ cm)))
                     raise_on_error)"
proof (cases "resolved_cache cm")
  case None
  have ce: "current_env (snd (current_environment environ (env_manager cm)))
      = Some (fst (current_environment environ (env_manager cm)))"
    by (simp add: current_environment_def Let_def split: option.split)
  have oc: "env_overrides_cache (snd (current_environment environ (env_manager cm)))
      = env_overrides_cache (env_manager cm)"
    by (simp add: current_environment_def Let_def split: option.split)
  show ?thesis
    using None ce oc
    by (simp add: cm_validate_def get_resolved_config_uncached active_environment_def)
next
  case (Some cached)
  then show ?thesis
    by (simp add: cm_validate_def get_resolved_config_def)
qed

text \<open>
  The claim as it was stated keeps the cache of the resolved configuration equal to what
  it was. On a manager that was just made the cache is empty before \<open>validate\<close> and
  holds the empty dictionary after it.
\<close>

theorem validate_changes_empty_cache:
  "resolved_cache (ConfigManager_init example_lib ''APP_ENV'') = None
   \<and> resolved_cache (snd (cm_validate [] example_lib
                            (ConfigManager_init example_lib ''APP_ENV'') False)) = Some []
   \<and> fst (cm_validate [] example_lib (ConfigManager_init example_lib ''APP_ENV'') False) = Inr []"
  by code_simp

section \<open>Paths that do not resolve\<close>

lemma split_path_nonempty: "split_path s \<noteq> []"
  by (induction s) (auto split: list.split)

lemma split_path_butlast_last: "butlast (split_path s) @ [last (split_path s)] = split_path s"
  by (simp add: split_path_nonempty)

lemma get_walk_error: "get_walk data keys dflt = Inl e \<Longrightarrow> e = KeyError"
  by (induction keys arbitrary: data) (auto split: pyvalue.splits option.splits)

lemma get_nested_value_Inr: "\<exists>v. get_nested_value data key_path dflt = Inr v"
proof (cases "get_walk data (split_path key_path) dflt")
  case (Inl e)
  then have "e = KeyError" by (rule get_walk_error)
  with Inl show ?thesis by (simp add: get_nested_value_def)
next
  case (Inr v)
  then show ?thesis by (simp add: get_nested_value_def)
qed

lemma has_walk_Inr: "\<exists>b. has_walk data keys = Inr b"
  by (induction keys arbitrary: data) (auto split: pyvalue.splits option.splits)

lemma has_nested_key_eq: "has_nested_key data key_path = has_walk data (split_path key_path)"
  using has_walk_Inr [of data "split_path key_path"]
  by (auto simp: has_nested_key_def)

lemma has_nested_key_Inr: "\<exists>b. has_nested_key data key_path = Inr b"
  unfolding has_nested_key_eq by (rule has_walk_Inr)

lemma get_walk_not_found:
  "has_walk data keys = Inr False \<Longrightarrow>
   get_walk data keys dflt = Inl KeyError \<or> get_walk data keys dflt = Inr dflt"
  by (induction keys arbitrary: data) (auto split: pyvalue.splits option.splits)

lemma get_nested_value_not_found:
  "has_nested_key data key_path = Inr False \<Longrightarrow> get_nested_value data key_path dflt = Inr dflt"
  unfolding has_nested_key_eq
  using get_walk_not_found [of data "split_path key_path" dflt]
  by (auto simp: get_nested_value_def)

lemma delete_walk_error:
  "delete_walk data keys k = Inl e \<Longrightarrow> e = KeyError \<or> e = TypeError"
  by (induction keys arbitrary: data e)
     (auto split: pyvalue.splits option.splits sum.splits if_splits prod.splits)

lemma delete_walk_dict:
  "delete_walk (VDict d) keys k = Inr (v, b) \<Longrightarrow> \<exists>d'. v = VDict d'"
  by (cases keys) (auto split: option.splits sum.splits if_splits prod.splits)

lemma dict_set_same: "dict_get d k = Some v \<Longrightarrow> dict_set d k v = d"
  by (rule update_triv)

lemma delete_walk_result:
  "delete_walk data keys k = Inr (v, b) \<Longrightarrow>
   (if b then has_walk data (keys @ [k]) = Inr True else v = data)"
proof (induction keys arbitrary: data v b)
  case Nil
  then show ?case
    by (auto simp: dict_has_def map_of_eq_None_iff split: pyvalue.splits if_splits option.splits)
next
  case (Cons key keys)
  from Cons.prems obtain d sub sub' where
    d: "data = VDict d" and sub: "dict_get d key = Some sub"
    and rec: "delete_walk sub keys k = Inr (sub', b)" and v: "v = VDict (dict_set d key sub')"
    by (auto split: pyvalue.splits option.splits sum.splits prod.splits)
  from Cons.IH [OF rec] show ?case
    using d sub v by (auto simp: dict_set_same split: if_splits)
qed

lemma cm_delete_Inr: "\<exists>cm'. cm_delete cm key_path = Inr cm'"
proof (cases "delete_walk (VDict (config_data cm)) (butlast (split_path key_path))
                (last (split_path key_path))")
  case (Inl e)
  then have "e = KeyError \<or> e = TypeError" by (rule delete_walk_error)
  with Inl show ?thesis by (auto simp: cm_delete_def Let_def)
next
  case (Inr r)
  obtain v b where r: "r = (v, b)" by (cases r)
  from Inr r obtain d' where "v = VDict d'" using delete_walk_dict by blast
  with Inr r show ?thesis by (simp add: cm_delete_def Let_def)
qed

lemma cm_delete_not_found:
  assumes "has_nested_key (VDict (config_data cm)) key_path = Inr False"
  shows "cm_delete cm key_path = Inr cm"
proof (cases "delete_walk (VDict (config_data cm)) (butlast (split_path key_path))
                (last (split_path key_path))")
  case (Inl e)
  then have "e = KeyError \<or> e = TypeError" by (rule delete_walk_error)
  with Inl show ?thesis by (auto simp: cm_delete_def Let_def)
next
  case (Inr r)
  obtain v b where r: "r = (v, b)" by (cases r)
  from assms have nf: "has_walk (VDict (config_data cm))
      (butlast (split_path key_path) @ [last (split_path key_path)]) = Inr False"
    by (simp add: has_nested_key_eq split_path_butlast_last)
  from delete_walk_result [OF Inr [unfolded r]] nf
  have "\<not> b" and "v = VDict (config_data cm)" by (auto split: if_splits)
  with Inr r show ?thesis by (simp add: cm_delete_def Let_def)
qed

lemma has_walk_lookup: "has_walk data keys = Inr (lookup_path data keys \<noteq> None)"
proof (induction keys arbitrary: data)
  case Nil
  then show ?case by simp
next
  case (Cons key keys)
  show ?case
  proof (cases data)
    case (VDict d)
    show ?thesis
    proof (cases "dict_get d key")
      case None
      with VDict show ?thesis by simp
    next
      case (Some inner)
      with VDict Cons.IH [of inner] show ?thesis by simp
    qed
  qed simp_all
qed

lemma get_walk_found:
  "lookup_path data keys = Some v \<Longrightarrow> get_walk data keys dflt = Inr v"
proof (induction keys arbitrary: data)
  case Nil
  then show ?case by simp
next
  case (Cons key keys)
  from Cons.prems obtain d inner where d: "data = VDict d" and i: "dict_get d key = Some inner"
    and r: "lookup_path inner keys = Some v"
    by (cases data) (auto split: option.splits)
  from Cons.IH [OF r] d i show ?case by simp
qed

lemma get_walk_unresolved:
  "lookup_path data keys = None \<Longrightarrow>
   get_walk data keys dflt = Inl KeyError \<or> get_walk data keys dflt = Inr dflt"
proof (induction keys arbitrary: data)
  case Nil
  then show ?case by simp
next
  case (Cons key keys)
  show ?case
  proof (cases data)
    case (VDict d)
    show ?thesis
    proof (cases "dict_get d key")
      case None
      with VDict show ?thesis by simp
    next
      case (Some inner)
      with VDict Cons.prems have "lookup_path inner keys = None" by simp
      from Cons.IH [OF this] VDict Some show ?thesis by simp
    qed
  qed simp_all
qed

lemma get_nested_value_lookup:
  "get_nested_value data key_path dflt =
     Inr (case lookup_path data (split_path key_path) of Some v \<Rightarrow> v | None \<Rightarrow> dflt)"
proof (cases "lookup_path data (split_path key_path)")
  case None
  from get_walk_unresolved [OF None, of dflt] None show ?thesis
    by (auto simp: get_nested_value_def)
next
  case (Some v)
  from get_walk_found [OF Some, of dflt] Some show ?thesis
    by (simp add: get_nested_value_def)
qed

lemma has_nested_key_lookup:
  "has_nested_key data key_path = Inr (lookup_path data (split_path key_path) \<noteq> None)"
  by (simp add: has_nested_key_eq has_walk_lookup)

lemma lookup_path_append:
  "lookup_path data (pre @ rest) =
     (case lookup_path data pre of
        None \<Rightarrow> None
      | Some inner \<Rightarrow> lookup_path inner rest)"
proof (induction pre arbitrary: data)
  case Nil
  then show ?case by simp
next
  case (Cons key keys)
  show ?case
  proof (cases data)
    case (VDict d)
    show ?thesis
    proof (cases "dict_get d key")
      case None
      with VDict show ?thesis by simp
    next
      case (Some inner)
      with VDict Cons.IH [of inner] show ?thesis by simp
    qed
  qed simp_all
qed

lemma lookup_path_stops:
  assumes "lookup_path data pre = Some inner"
    and "case inner of VDict d \<Rightarrow> dict_get d seg = None | _ \<Rightarrow> True"
  shows "lookup_path data (pre @ seg # post) = None"
  using assms by (cases inner) (simp_all add: lookup_path_append)

lemma lookup_path_parent:
  assumes "lookup_path data (butlast keys) = None"
  shows "lookup_path data keys = None"
proof (cases "keys = []")
  case True
  with assms show ?thesis by simp
next
  case False
  have "lookup_path data (butlast keys @ [last keys]) = None"
    using assms by (simp add: lookup_path_append)
  then show ?thesis
    by (simp only: append_butlast_last_id [OF False])
qed

lemma cm_delete_unresolved:
  assumes "lookup_path (VDict (config_data cm)) (split_path key_path) = None"
  shows "cm_delete cm key_path = Inr cm"
  by (rule cm_delete_not_found) (simp add: has_nested_key_lookup assms)

text \<open>
  Claim C8. \<open>get_nested_value\<close>, \<open>has_nested_key\<close> and \<open>ConfigManager.delete\<close> return
  for every tree and every path, with empty segments or through values that are not
  dictionaries as well: no exception leaves them. \<open>has_nested_key\<close> is true exactly when
  the path resolves, and \<open>get_nested_value\<close> returns the value the path resolves to and
  the default it was given when the path does not resolve. In particular, when the
  segments before some segment resolve to a value that is not a dictionary, or to a
  dictionary without that segment, \<open>has_nested_key\<close> is false and \<open>get_nested_value\<close>
  returns the default. \<open>delete\<close> leaves the manager as it is when the path does not
  resolve, and so when the parent of the last segment does not resolve.
\<close>

theorem nested_path_operations_never_raise:
  "(\<exists>v. get_nested_value data key_path dflt = Inr v)
   \<and> (\<exists>b. has_nested_key data key_path = Inr b)
   \<and> (\<exists>cm'. cm_delete cm key_path = Inr cm')
   \<and> has_nested_key data key_path = Inr (lookup_path data (split_path key_path) \<noteq> None)
   \<and> get_nested_value data key_path dflt =
       Inr (case lookup_path data (split_path key_path) of Some v \<Rightarrow> v | None \<Rightarrow> dflt)
   \<and> (split_path key_path = pre @ seg # post
        \<and> lookup_path data pre = Some inner
        \<and> (case inner of VDict d \<Rightarrow> dict_get d seg = None | _ \<Rightarrow> True)
        \<longrightarrow> has_nested_key data key_path = Inr False
            \<and> get_nested_value data key_path dflt = Inr dflt)
   \<and> (lookup_path (VDict (config_data cm)) (split_path key_path) = None
        \<longrightarrow> cm_delete cm key_path = Inr cm)
   \<and> (lookup_path (VDict (config_data cm)) (butlast (split_path key_path)) = None
        \<longrightarrow> cm_delete cm key_path = Inr cm)"
proof -
  have stop: "has_nested_key data key_path = Inr False
            \<and> get_nested_value data key_path dflt = Inr dflt"
    if "split_path key_path = pre @ seg # post" and "lookup_path data pre = Some inner"
      and "case inner of VDict d \<Rightarrow> dict_get d seg = None | _ \<Rightarrow> True"
  proof -
    from lookup_path_stops [OF that(2) that(3), of post] that(1)
    have "lookup_path data (split_path key_path) = None" by simp
    then show ?thesis by (simp add: has_nested_key_lookup get_nested_value_lookup)
  qed
  have parent: "cm_delete cm key_path = Inr cm"
    if "lookup_path (VDict (config_data cm)) (butlast (split_path key_path)) = None"
  proof -
    from that have "lookup_path (VDict (config_data cm)) (split_path key_path) = None"
      by (rule lookup_path_parent)
    then show ?thesis by (rule cm_delete_unresolved)
  qed
  show ?thesis
  proof (intro conjI impI)
    show "\<exists>v. get_nested_value data key_path dflt = Inr v"
      by (rule get_nested_value_Inr)
    show "\<exists>b. has_nested_key data key_path = Inr b"
      by (rule has_nested_key_Inr)
    show "\<exists>cm'. cm_delete cm key_path = Inr cm'"
      by (rule cm_delete_Inr)
    show "has_nested_key data key_path = Inr (lookup_path data (split_path key_path) \<noteq> None)"
      by (rule has_nested_key_lookup)
    show "get_nested_value data key_path dflt =
       Inr (case lookup_path data (split_path key_path) of Some v \<Rightarrow> v | None \<Rightarrow> dflt)"
      by (rule get_nested_value_lookup)
  next
    assume a: "split_path key_path = pre @ seg # post
        \<and> lookup_path data pre = Some inner
        \<and> (case inner of VDict d \<Rightarrow> dict_get d seg = None | _ \<Rightarrow> True)"
    from a stop show "has_nested_key data key_path = Inr False" by simp
    from a stop show "get_nested_value data key_path dflt = Inr dflt" by simp
  next
    assume "lookup_path (VDict (config_data cm)) (split_path key_path) = None"
    then show "cm_delete cm key_path = Inr cm" by (rule cm_delete_unresolved)
  next
    assume "lookup_path (VDict (config_data cm)) (butlast (split_path key_path)) = None"
    then show "cm_delete cm key_path = Inr cm" by (rule parent)
  qed
qed

text \<open>
  The path \<open>a..b\<close> in the tree \<open>{"a": "x"}\<close>: its segments are \<open>a\<close>, the empty segment
  and \<open>b\<close>; the segment \<open>a\<close> resolves to the string \<open>x\<close>, which is not a dictionary.
\<close>

theorem nested_path_operations_witness:
  "split_path ''a..b'' = [''a''] @ [] # [''b'']
   \<and> lookup_path (VDict [(''a'', VStr ''x'')]) [''a''] = Some (VStr ''x'')
   \<and> has_nested_key (VDict [(''a'', VStr ''x'')]) ''a..b'' = Inr False
   \<and> get_nested_value (VDict [(''a'', VStr ''x'')]) ''a..b'' (VInt 7) = Inr (VInt 7)
   \<and> lookup_path
        (VDict (config_data (cm_load_dict (ConfigManager_init example_lib ''APP_ENV'')
                               [(''a'', VStr ''x'')])))
        (butlast (split_path ''a..b'')) = None
   \<and> cm_delete (cm_load_dict (ConfigManager_init example_lib ''APP_ENV'') [(''a'', VStr ''x'')])
        ''a..b''
      = Inr (cm_load_dict (ConfigManager_init example_lib ''APP_ENV'') [(''a'', VStr ''x'')])"
proof -
  have h1: "split_path ''a..b'' = [''a''] @ [] # [''b'']"
    by code_simp
  have h2: "lookup_path (VDict [(''a'', VStr ''x'')]) [''a''] = Some (VStr ''x'')"
    by code_simp
  have h3: "case VStr ''x'' of VDict d \<Rightarrow> dict_get d [] = None | _ \<Rightarrow> True"
    by simp
  have h4: "lookup_path
        (VDict (config_data (cm_load_dict (ConfigManager_init example_lib ''APP_ENV'')
                               [(''a'', VStr ''x'')])))
        (butlast (split_path ''a..b'')) = None"
    by code_simp
  from nested_path_operations_never_raise [of "VDict [(''a'', VStr ''x'')]" "''a..b''" "VInt 7"
      "cm_load_dict (ConfigManager_init example_lib ''APP_ENV'') [(''a'', VStr ''x'')]"
      "[''a'']" "[]" "[''b'']" "VStr ''x''"]
    h1 h2 h3 h4
  show ?thesis by blast
qed

section \<open>Missing keys in validation\<close>

lemma validate_loop_eq:
  "validate_loop lib tree registry errors
     = Inr (errors @ concat (map (key_errors lib tree) registry))"
proof (induction registry arbitrary: errors)
  case Nil
  then show ?case by simp
next
  case (Cons entry registry)
  obtain key_path rs where e: "entry = (key_path, rs)" by (cases entry)
  obtain val where v: "get_nested_value tree key_path VNone = Inr val"
    using get_nested_value_Inr by blast
  show ?case
    unfolding e by (simp add: v Cons.IH key_errors_def)
qed

lemma validate_eq:
  "validate lib vd tree raise_on_error =
     (let errors = concat (map (key_errors lib tree) (rules vd))
      in if raise_on_error \<and> errors \<noteq> [] then Inl (ConfigValidationError errors)
         else Inr errors)"
  by (simp add: validate_def validate_loop_eq Let_def)

lemma add_rule_url:
  "add_rule (ConfigValidator_init lib) key_path (Inl ''url'')
     = Inr ((ConfigValidator_init lib)\<lparr>rules := [(key_path, [url_rule lib])]\<rparr>)"
  by (simp add: add_rule_def ConfigValidator_init_def)

lemma add_rule_required:
  "add_rule (ConfigValidator_init lib) key_path (Inl ''required'')
     = Inr ((ConfigValidator_init lib)\<lparr>rules := [(key_path, [required_rule])]\<rparr>)"
  by (simp add: add_rule_def ConfigValidator_init_def)

text \<open>
  Claim C7. \<open>validate\<close> reads each registered key path with \<open>get_nested_value\<close> and the
  default \<open>None\<close>, and its errors are the errors of the entries of the registry, in
  their order. An entry whose value is \<open>None\<close> gives the one error
  \<open><path>: Required key is missing\<close> when one of its rules is marked required, and no
  error otherwise. So a key path that is not in the tree gives no error when it is
  registered with the rule \<open>url\<close>, and this one error (returned, or raised on request)
  when it is registered with the rule \<open>required\<close>.
\<close>

theorem validate_missing_key:
  "validate lib vd tree False
     = Inr (concat (map (key_errors lib tree) (rules vd)))
   \<and> (get_nested_value tree key_path VNone = Inr VNone \<longrightarrow>
        key_errors lib tree (key_path, rs) =
          (if \<exists>rule \<in> set rs. required rule
           then [key_path @ '': Required key is missing''] else []))
   \<and> (has_nested_key tree key_path = Inr False \<longrightarrow>
        (case add_rule (ConfigValidator_init lib) key_path (Inl ''url'') of
           Inl err \<Rightarrow> False
         | Inr vd' \<Rightarrow> validate lib vd' tree raise_on_error = Inr [])
        \<and> (case add_rule (ConfigValidator_init lib) key_path (Inl ''required'') of
             Inl err \<Rightarrow> False
           | Inr vd' \<Rightarrow>
               validate lib vd' tree False
                 = Inr [key_path @ '': Required key is missing'']
               \<and> validate lib vd' tree True
                 = Inl (ConfigValidationError [key_path @ '': Required key is missing''])))"
proof -
  have all: "validate lib vd tree False
     = Inr (concat (map (key_errors lib tree) (rules vd)))"
    by (simp add: validate_eq)
  have one: "key_errors lib tree (key_path, rs) =
          (if \<exists>rule \<in> set rs. required rule
           then [key_path @ '': Required key is missing''] else [])"
    if "get_nested_value tree key_path VNone = Inr VNone"
    using that by (auto simp: key_errors_def filter_empty_conv)
  have absent: "(case add_rule (ConfigValidator_init lib) key_path (Inl ''url'') of
           Inl err \<Rightarrow> False
         | Inr vd' \<Rightarrow> validate lib vd' tree raise_on_error = Inr [])
        \<and> (case add_rule (ConfigValidator_init lib) key_path (Inl ''required'') of
             Inl err \<Rightarrow> False
           | Inr vd' \<Rightarrow>
               validate lib vd' tree False
                 = Inr [key_path @ '': Required key is missing'']
               \<and> validate lib vd' tree True
                 = Inl (ConfigValidationError [key_path @ '': Required key is missing'']))"
    if "has_nested_key tree key_path = Inr False"
  proof -
    from that have n: "get_nested_value tree key_path VNone = Inr VNone"
      by (rule get_nested_value_not_found)
    show ?thesis
      unfolding add_rule_url add_rule_required
      by (simp add: validate_eq key_errors_def n url_rule_def required_rule_def)
  qed
  from all one absent show ?thesis by blast
qed

theorem validate_missing_key_witness:
  "get_nested_value (VDict [(''db'', VDict [(''port'', VInt 5432)])]) ''db.url'' VNone = Inr VNone
   \<and> has_nested_key (VDict [(''db'', VDict [(''port'', VInt 5432)])]) ''db.url'' = Inr False
   \<and> key_errors example_lib (VDict [(''db'', VDict [(''port'', VInt 5432)])])
        (''db.url'', [url_rule example_lib, required_rule])
      = [''db.url: Required key is missing'']
   \<and> (case add_rule (ConfigValidator_init example_lib) ''db.url'' (Inl ''url'') of
         Inl err \<Rightarrow> False
       | Inr vd' \<Rightarrow>
           validate example_lib vd' (VDict [(''db'', VDict [(''port'', VInt 5432)])]) True
             = Inr [])"
proof -
  have g: "get_nested_value (VDict [(''db'', VDict [(''port'', VInt 5432)])]) ''db.url'' VNone
      = Inr VNone"
    by code_simp
  have h: "has_nested_key (VDict [(''db'', VDict [(''port'', VInt 5432)])]) ''db.url'' = Inr False"
    by code_simp
  have r: "\<exists>rule \<in> set [url_rule example_lib, required_rule]. required rule"
    by (simp add: required_rule_def)
  from validate_missing_key [of example_lib "ConfigValidator_init example_lib"
      "VDict [(''db'', VDict [(''port'', VInt 5432)])]" "''db.url''"
      "[url_rule example_lib, required_rule]" True]
    g h r
  show ?thesis by (simp del: set_simps list.set)
qed


section \<open>Coherence of the cache of the resolved configuration\<close>

lemma current_environment_known:
  "current_env em = Some e \<Longrightarrow> current_environment environ em = (e, em)"
  by (simp add: current_environment_def)

lemma current_environment_memo:
  "current_env (snd (current_environment environ em)) = Some (fst (current_environment environ em))"
  by (simp add: current_environment_def Let_def split: option.split)

lemma cached_read_is_fresh_read:
  assumes "cache_coherent cm"
  shows "fst (get_resolved_config environ True cm) = fst (get_resolved_config environ False cm)"
proof (cases "resolved_cache cm")
  case None
  then show ?thesis by (simp add: get_resolved_config_uncached)
next
  case (Some cached)
  with assms obtain e where e: "current_env (env_manager cm) = Some e"
    and c: "cached = resolve_for (config_data cm) e"
    by (auto simp: cache_coherent_def split: option.splits)
  have "fst (get_resolved_config environ False cm) = resolve_for (config_data cm) e"
    by (simp add: get_resolved_config_uncached active_environment_def
          current_environment_known [OF e])
  moreover have "fst (get_resolved_config environ True cm) = cached"
    using Some by (simp add: get_resolved_config_def)
  ultimately show ?thesis using c by simp
qed

lemma cache_coherent_validator:
  "cache_coherent (cm\<lparr>validator := vd\<rparr>) = cache_coherent cm"
  by (simp add: cache_coherent_def split: option.split)

lemma cache_coherent_none: "resolved_cache cm = None \<Longrightarrow> cache_coherent cm"
  by (simp add: cache_coherent_def)

lemma cache_coherent_init: "cache_coherent (ConfigManager_init lib var_name)"
  by (simp add: cache_coherent_def ConfigManager_init_def)

lemma cache_coherent_get_resolved_config:
  assumes "cache_coherent cm"
  shows "cache_coherent (snd (get_resolved_config environ use_cache cm))"
proof (cases "resolved_cache cm = None \<or> \<not> use_cache")
  case True
  show ?thesis
  proof (cases use_cache)
    case True
    with \<open>resolved_cache cm = None \<or> \<not> use_cache\<close> have "resolved_cache cm = None" by simp
    then show ?thesis
      using True
      by (simp add: get_resolved_config_uncached cache_coherent_def current_environment_memo
            active_environment_def)
  next
    case False
    show ?thesis
    proof (cases "resolved_cache cm")
      case None
      then show ?thesis
        using False by (simp add: get_resolved_config_uncached cache_coherent_def)
    next
      case (Some cached)
      with assms obtain e where e: "current_env (env_manager cm) = Some e"
        and c: "cached = resolve_for (config_data cm) e"
        by (auto simp: cache_coherent_def split: option.splits)
      show ?thesis
        using False Some e c
        by (simp add: get_resolved_config_uncached cache_coherent_def
              current_environment_known [OF e])
    qed
  qed
next
  case False
  then obtain cached where "resolved_cache cm = Some cached" and "use_cache" by auto
  then have "snd (get_resolved_config environ use_cache cm) = cm"
    by (simp add: get_resolved_config_def)
  with assms show ?thesis by simp
qed

lemma cache_coherent_env_read:
  assumes "cache_coherent cm"
  shows "cache_coherent (cm\<lparr>env_manager := snd (current_environment environ (env_manager cm))\<rparr>)"
proof (cases "current_env (env_manager cm)")
  case None
  with assms have "resolved_cache cm = None"
    by (auto simp: cache_coherent_def split: option.splits)
  then show ?thesis by (simp add: cache_coherent_def)
next
  case (Some e)
  then show ?thesis
    using assms by (simp add: current_environment_known [OF Some])
qed

lemma cache_coherent_cm_get:
  "cache_coherent cm \<Longrightarrow> cache_coherent (snd (cm_get environ cm key_path dflt))"
  using cache_coherent_env_read [of cm environ]
  by (auto simp: cm_get_def get_environment_config_key_def Let_def
      split: prod.splits sum.splits)

lemma cache_coherent_cm_has:
  "cache_coherent cm \<Longrightarrow> cache_coherent (snd (cm_has environ cm key_path))"
  using cache_coherent_env_read [of cm environ]
  by (auto simp: cm_has_def get_environment_config_key_def Let_def
      split: prod.splits sum.splits)

lemma cache_coherent_cm_set: "cache_coherent (cm_set cm key_path val)"
  by (simp add: cm_set_def cache_coherent_def)

lemma cache_coherent_cm_update:
  "cache_coherent cm \<Longrightarrow> cache_coherent (cm_update cm updates)"
proof -
  have "cache_coherent c \<Longrightarrow> cache_coherent (fold (\<lambda>kv c. cm_set c (fst kv) (snd kv)) updates c)"
    for c
    by (induction updates arbitrary: c) (simp_all add: cache_coherent_cm_set)
  then show "cache_coherent cm \<Longrightarrow> cache_coherent (cm_update cm updates)"
    by (simp add: cm_update_def)
qed

lemma cache_coherent_cm_delete:
  assumes "cache_coherent cm"
  shows "cache_coherent (or_unchanged cm (cm_delete cm key_path))"
proof (cases "delete_walk (VDict (config_data cm)) (butlast (split_path key_path))
                (last (split_path key_path))")
  case (Inl e)
  then have "e = KeyError \<or> e = TypeError" by (rule delete_walk_error)
  with Inl assms show ?thesis by (auto simp: cm_delete_def Let_def or_unchanged_def)
next
  case (Inr r)
  obtain v b where r: "r = (v, b)" by (cases r)
  from Inr r obtain d' where v: "v = VDict d'" using delete_walk_dict by blast
  show ?thesis
  proof (cases b)
    case True
    with Inr r v show ?thesis
      by (simp add: cm_delete_def Let_def or_unchanged_def cache_coherent_def)
  next
    case False
    with delete_walk_result [OF Inr [unfolded r]] have "v = VDict (config_data cm)" by simp
    with Inr r False assms show ?thesis
      by (simp add: cm_delete_def Let_def or_unchanged_def)
  qed
qed

lemma reload_loop_cache:
  "resolved_cache cm = None \<Longrightarrow> resolved_cache (snd (reload_loop fs files cm)) = None"
proof (induction files arbitrary: cm)
  case Nil
  then show ?case by simp
next
  case (Cons f files)
  show ?case
  proof (cases "fs f")
    case (Loaded file_data)
    then show ?thesis
      by (simp add: cm_load_file_def Cons.IH)
  qed (simp_all add: cm_load_file_def Cons.prems Cons.IH)
qed

lemma cache_coherent_cm_apply_env_overrides:
  assumes "cache_coherent cm"
  shows "cache_coherent (cm_apply_env_overrides environ cm prefix)"
proof -
  obtain overrides em where g: "get_env_overrides environ prefix True (env_manager cm) = (overrides, em)"
    by (cases "get_env_overrides environ prefix True (env_manager cm)")
  then have "current_env em = current_env (env_manager cm)"
    by (auto simp: get_env_overrides_def Let_def split: option.splits)
  then show ?thesis
    using assms g
    by (auto simp: cm_apply_env_overrides_def cache_coherent_def split: option.splits)
qed

lemma cache_coherent_step:
  assumes "cache_coherent (manager w)"
  shows "cache_coherent (manager (step lib operation w))"
proof (cases operation)
  case (LoadFile file_path outcome)
  then show ?thesis
    using assms
    by (cases outcome) (simp_all add: cm_load_file_def or_unchanged_def cache_coherent_def)
next
  case (LoadDict config_dict)
  then show ?thesis by (simp add: cm_load_dict_def cache_coherent_def)
next
  case (SetEnvironment environment)
  then show ?thesis
    using assms
    by (auto simp: cm_set_environment_def or_unchanged_def cache_coherent_none
        split: sum.splits)
next
  case (ApplyEnvOverrides prefix)
  then show ?thesis using assms by (simp add: cache_coherent_cm_apply_env_overrides)
next
  case (Get key_path dflt)
  then show ?thesis using assms by (simp add: cache_coherent_cm_get)
next
  case (SetValue key_path val)
  then show ?thesis by (simp add: cache_coherent_cm_set)
next
  case (Has key_path)
  then show ?thesis using assms by (simp add: cache_coherent_cm_has)
next
  case (Delete key_path)
  then show ?thesis using assms by (simp add: cache_coherent_cm_delete)
next
  case (Update updates)
  then show ?thesis using assms by (simp add: cache_coherent_cm_update)
next
  case (GetResolvedConfig use_cache)
  then show ?thesis using assms by (simp add: cache_coherent_get_resolved_config)
next
  case (Validate raise_on_error)
  then show ?thesis
    using cache_coherent_get_resolved_config [OF assms, of "os_environ w" True]
    by (simp add: cm_validate_def case_prod_beta)
next
  case (AddValidationRule key_path rule)
  then show ?thesis
    using assms
    by (auto simp: cm_add_validation_rule_def or_unchanged_def cache_coherent_validator
        split: sum.splits)
next
  case (RemoveValidationRule key_path rule_name)
  then show ?thesis
    using assms by (simp add: cm_remove_validation_rule_def cache_coherent_validator)
next
  case (Reload fs)
  then show ?thesis
    by (simp add: cm_reload_def cache_coherent_none reload_loop_cache)
next
  case Clear
  then show ?thesis by (simp add: cm_clear_def cache_coherent_def)
next
  case (PutEnv k v)
  then show ?thesis using assms by simp
next
  case (UnsetEnv k)
  then show ?thesis using assms by simp
qed

lemma cache_coherent_run:
  "cache_coherent (manager w) \<Longrightarrow> cache_coherent (manager (run lib ops w))"
  unfolding run_def
  by (induction ops arbitrary: w) (simp_all add: cache_coherent_step)

text \<open>
  Claim C3. After any sequence of calls on a manager that was just made (loads, \<open>set\<close>,
  \<open>delete\<close>, \<open>update\<close>, \<open>apply_env_overrides\<close>, \<open>set_environment\<close>, \<open>clear\<close>, \<open>reload\<close>,
  reads, validations, with or without the cache, and changes of the process environment
  in between), \<open>get_resolved_config\<close> with the cache in use returns what it returns
  without the cache: the resolution of the raw tree as it now is under the environment
  that is now active. The methods of \<open>ConfigManager\<close> that are not operations of their
  own here (\<open>load_directory\<close>, \<open>to_dict\<close>, \<open>save_to_file\<close>, \<open>keys\<close>, \<open>items\<close> and the
  methods with double underscores) change the manager only through the operations that
  are.
\<close>

theorem resolved_cache_coherence:
  "fst (get_resolved_config
          (os_environ (run lib ops (fresh_world lib environ var_name))) True
          (manager (run lib ops (fresh_world lib environ var_name))))
     = fst (get_resolved_config
          (os_environ (run lib ops (fresh_world lib environ var_name))) False
          (manager (run lib ops (fresh_world lib environ var_name))))
   \<and> fst (get_resolved_config
          (os_environ (run lib ops (fresh_world lib environ var_name))) True
          (manager (run lib ops (fresh_world lib environ var_name))))
     = resolve_for
         (config_data (manager (run lib ops (fresh_world lib environ var_name))))
         (active_environment
            (os_environ (run lib ops (fresh_world lib environ var_name)))
            (manager (run lib ops (fresh_world lib environ var_name))))"
proof -
  have "cache_coherent (manager (fresh_world lib environ var_name))"
    by (simp add: fresh_world_def cache_coherent_init)
  then have "cache_coherent (manager (run lib ops (fresh_world lib environ var_name)))"
    by (rule cache_coherent_run)
  from cached_read_is_fresh_read [OF this]
  show ?thesis by (simp add: get_resolved_config_uncached)
qed

section \<open>flatten_dict and unflatten_dict\<close>

text \<open>
  Claim C6. The tree \<open>{"": {"b": 1}}\<close> has no empty dictionary as a value and no key
  with the separator in it. \<open>flatten_dict\<close> tests \<open>if prefix\<close> to tell the top level
  from the levels below, so under the empty key it takes the dictionary for the top
  level and flattens it to \<open>{"b": 1}\<close>, where the key \<open>.b\<close> would read back;
  \<open>unflatten_dict\<close> then gives \<open>{"b": 1}\<close>, which is not the tree. Below the top level
  an empty key is kept: \<open>{"a": {"": {"b": 1}}}\<close> flattens to \<open>{"a..b": 1}\<close> and reads
  back.
\<close>

theorem flatten_unflatten_empty_top_key:
  "flatten_dict [([], VDict [(''b'', VInt 1)])] [] = [(''b'', VInt 1)]
   \<and> unflatten_dict (flatten_dict [([], VDict [(''b'', VInt 1)])] []) = [(''b'', VInt 1)]
   \<and> unflatten_dict (flatten_dict [([], VDict [(''b'', VInt 1)])] [])
       \<noteq> [([], VDict [(''b'', VInt 1)])]
   \<and> flatten_dict [(''a'', VDict [([], VDict [(''b'', VInt 1)])])] [] = [(''a..b'', VInt 1)]
   \<and> unflatten_dict (flatten_dict [(''a'', VDict [([], VDict [(''b'', VInt 1)])])] [])
       = [(''a'', VDict [([], VDict [(''b'', VInt 1)])])]"
  by code_simp

subsection \<open>The round trip on the other trees\<close>

text \<open>
  Splitting a joined path gives its segments back when no segment has the separator in
  it; the paths of the leaves of a tree are distinct, and so are their joined forms.
\<close>

lemma split_path_sep_free: "separator \<notin> set k \<Longrightarrow> split_path k = [k]"
  by (induction k) (auto split: list.split)

lemma split_path_append:
  "separator \<notin> set k \<Longrightarrow> split_path (k @ separator # rest) = k # split_path rest"
  by (induction k) (auto split: list.split)

lemma split_join:
  "p \<noteq> [] \<Longrightarrow> \<forall>k \<in> set p. separator \<notin> set k \<Longrightarrow> split_path (join_path p) = p"
proof (induction p rule: join_path.induct)
  case 1
  then show ?case by simp
next
  case (2 k)
  then show ?case by (simp add: split_path_sep_free)
next
  case (3 k v va)
  then show ?case by (simp add: split_path_append)
qed

lemma join_path_snoc: "q \<noteq> [] \<Longrightarrow> join_path (q @ [k]) = join_path q @ [separator] @ k"
  by (induction q rule: join_path.induct) auto

lemma join_path_nonempty: "q \<noteq> [] \<Longrightarrow> hd q \<noteq> [] \<Longrightarrow> join_path q \<noteq> []"
  by (induction q rule: join_path.induct) auto

lemma new_key_join:
  "q = [] \<or> hd q \<noteq> [] \<Longrightarrow>
   (if join_path q \<noteq> [] then join_path q @ [separator] @ k else k) = join_path (q @ [k])"
  by (cases "q = []") (auto simp: join_path_snoc join_path_nonempty)

lemma flat_paths_hd:
  "px \<in> set (flat_paths d) \<Longrightarrow> fst px \<noteq> [] \<and> hd (fst px) \<in> fst ` set d"
proof (induction d rule: flat_paths.induct)
  case 1
  then show ?case by simp
next
  case (2 k v d)
  then show ?case
    by (cases v) (auto split: pyvalue.splits)
qed

lemma flat_ok_items:
  "flat_ok (VDict d) \<Longrightarrow> (k, v) \<in> set d \<Longrightarrow> separator \<notin> set k \<and> flat_ok v"
  by (auto simp: list_all_iff)

lemma flat_paths_segments:
  "distinct (map fst d) \<Longrightarrow> list_all (\<lambda>kv. separator \<notin> set (fst kv) \<and> flat_ok (snd kv)) d \<Longrightarrow>
   px \<in> set (flat_paths d) \<Longrightarrow> \<forall>k \<in> set (fst px). separator \<notin> set k"
proof (induction d arbitrary: px rule: flat_paths.induct)
  case 1
  then show ?case by simp
next
  case (2 k v d)
  show ?case
  proof (cases "px \<in> set (flat_paths d)")
    case True
    with "2.IH"(2) "2.prems" show ?thesis by simp
  next
    case False
    show ?thesis
    proof (cases v)
      case (VDict sub)
      with False "2.prems"(3) obtain py where py: "py \<in> set (flat_paths sub)"
        and px: "px = (k # fst py, snd py)"
        by auto
      from "2.prems"(2) VDict have "flat_ok (VDict sub)" by simp
      then have "distinct (map fst sub)"
        and "list_all (\<lambda>kv. separator \<notin> set (fst kv) \<and> flat_ok (snd kv)) sub"
        by simp_all
      from "2.IH"(1) [OF VDict this py] "2.prems"(2) px show ?thesis by simp
    qed (use False "2.prems" in auto)
  qed
qed

lemma flat_paths_distinct:
  "distinct (map fst d) \<Longrightarrow> list_all (\<lambda>kv. separator \<notin> set (fst kv) \<and> flat_ok (snd kv)) d \<Longrightarrow>
   distinct (map fst (flat_paths d))"
proof (induction d rule: flat_paths.induct)
  case 1
  then show ?case by simp
next
  case (2 k v d)
  from "2.prems" have rest: "distinct (map fst (flat_paths d))"
    using "2.IH"(2) by simp
  have disj: "hd p \<noteq> k" if "p \<in> fst ` set (flat_paths d)" for p
  proof -
    from that obtain px where "px \<in> set (flat_paths d)" "p = fst px" by auto
    with flat_paths_hd [of px d] have "hd p \<in> fst ` set d" by simp
    with "2.prems"(1) show ?thesis by auto
  qed
  show ?case
  proof (cases v)
    case (VDict sub)
    from "2.prems"(2) VDict have "flat_ok (VDict sub)" by simp
    then have "distinct (map fst (flat_paths sub))"
      using "2.IH"(1) [OF VDict] by simp
    then have "distinct (map (\<lambda>px. k # fst px) (flat_paths sub))"
      by (simp add: distinct_map inj_on_def)
    moreover have "(\<lambda>px. k # fst px) ` set (flat_paths sub) \<inter> fst ` set (flat_paths d) = {}"
      using disj by fastforce
    ultimately show ?thesis using rest VDict by (simp add: comp_def image_image)
  qed (use rest disj in \<open>fastforce+\<close>)
qed

lemma flat_paths_nonempty:
  "flat_ok (VDict d) \<Longrightarrow> flat_paths d \<noteq> []"
proof (induction d rule: flat_paths.induct)
  case 1
  then show ?case by simp
next
  case (2 k v d)
  show ?case
  proof (cases v)
    case (VDict sub)
    from "2.prems" VDict have "flat_ok (VDict sub)" by simp
    with "2.IH"(1) [OF VDict] have "flat_paths sub \<noteq> []" by simp
    with VDict show ?thesis by simp
  qed simp_all
qed

lemma fold_dict_set_distinct:
  "distinct (map fst kvs) \<Longrightarrow> fst ` set kvs \<inter> fst ` set r = {} \<Longrightarrow>
   fold (\<lambda>kv r. dict_set r (fst kv) (snd kv)) kvs r = r @ kvs"
proof (induction kvs arbitrary: r)
  case Nil
  then show ?case by simp
next
  case (Cons kv kvs)
  from Cons.prems have nin: "fst kv \<notin> fst ` set r" by auto
  have "fold (\<lambda>kv r. dict_set r (fst kv) (snd kv)) kvs (r @ [kv]) = (r @ [kv]) @ kvs"
    using Cons.prems by (intro Cons.IH) auto
  then show ?case
    by (simp add: dict_set_new_key [OF nin])
qed

lemma split_join_flat_path:
  assumes d: "distinct (map fst d)"
    and ok: "list_all (\<lambda>kv. separator \<notin> set (fst kv) \<and> flat_ok (snd kv)) d"
    and q: "\<forall>k \<in> set q. separator \<notin> set k"
    and px: "px \<in> set (flat_paths d)"
  shows "split_path (join_path (q @ fst px)) = q @ fst px"
proof (rule split_join)
  from flat_paths_hd [OF px] show "q @ fst px \<noteq> []" by simp
  from flat_paths_segments [OF d ok px] q
  show "\<forall>k \<in> set (q @ fst px). separator \<notin> set k" by (simp add: ball_Un)
qed

lemma join_paths_distinct:
  assumes d: "distinct (map fst d)"
    and ok: "list_all (\<lambda>kv. separator \<notin> set (fst kv) \<and> flat_ok (snd kv)) d"
    and q: "\<forall>k \<in> set q. separator \<notin> set k"
  shows "distinct (map (\<lambda>px. join_path (q @ fst px)) (flat_paths d))"
proof -
  have paths: "distinct (map fst (flat_paths d))"
    by (rule flat_paths_distinct [OF d ok])
  have "inj_on (\<lambda>p. join_path (q @ p)) (fst ` set (flat_paths d))"
  proof (rule inj_onI)
    fix p1 p2
    assume p1: "p1 \<in> fst ` set (flat_paths d)" and p2: "p2 \<in> fst ` set (flat_paths d)"
      and eq: "join_path (q @ p1) = join_path (q @ p2)"
    from p1 obtain px where px: "px \<in> set (flat_paths d)" and e1: "p1 = fst px" by blast
    from p2 obtain py where py: "py \<in> set (flat_paths d)" and e2: "p2 = fst py" by blast
    have "q @ p1 = split_path (join_path (q @ p1))"
      unfolding e1 by (rule split_join_flat_path [OF d ok q px, symmetric])
    also have "\<dots> = split_path (join_path (q @ p2))" by (simp only: eq)
    also have "\<dots> = q @ p2"
      unfolding e2 by (rule split_join_flat_path [OF d ok q py])
    finally show "p1 = p2" by simp
  qed
  then have "distinct (map (\<lambda>p. join_path (q @ p)) (map fst (flat_paths d)))"
    using paths by (simp only: distinct_map set_map)
  then show ?thesis by (simp only: map_map comp_def)
qed

lemma flatten_items_paths:
  "distinct (map fst d) \<Longrightarrow>
   list_all (\<lambda>kv. separator \<notin> set (fst kv) \<and> flat_ok (snd kv)) d \<Longrightarrow>
   q = [] \<or> hd q \<noteq> [] \<Longrightarrow>
   \<forall>k \<in> set q. separator \<notin> set k \<Longrightarrow>
   q = [] \<longrightarrow> (\<forall>kv \<in> set d. \<not> (fst kv = [] \<and> is_dict (snd kv))) \<Longrightarrow>
   flatten_items d (join_path q) result =
     fold (\<lambda>px r. dict_set r (join_path (q @ fst px)) (snd px)) (flat_paths d) result"
proof (induction d arbitrary: q result rule: flat_paths.induct)
  case 1
  then show ?case by simp
next
  case (2 k v d)
  from "2.prems" have dd: "distinct (map fst d)"
    and okd: "list_all (\<lambda>kv. separator \<notin> set (fst kv) \<and> flat_ok (snd kv)) d"
    and topd: "q = [] \<longrightarrow> (\<forall>kv \<in> set d. \<not> (fst kv = [] \<and> is_dict (snd kv)))"
    and sk: "separator \<notin> set k" and okv: "flat_ok v"
    by simp_all
  note rest = "2.IH"(2) [OF dd okd "2.prems"(3) "2.prems"(4) topd]
  have nk: "(if join_path q \<noteq> [] then join_path q @ [separator] @ k else k) = join_path (q @ [k])"
    using "2.prems"(3) by (rule new_key_join)
  show ?case
  proof (cases v)
    case (VDict sub)
    from okv VDict have ds: "distinct (map fst sub)"
      and oks: "list_all (\<lambda>kv. separator \<notin> set (fst kv) \<and> flat_ok (snd kv)) sub"
      by simp_all
    have knz: "q = [] \<Longrightarrow> k \<noteq> []"
      using "2.prems"(5) VDict by (auto simp: is_dict_def)
    have hq: "q @ [k] = [] \<or> hd (q @ [k]) \<noteq> []"
      using "2.prems"(3) knz by (cases q) auto
    have sq: "\<forall>s \<in> set (q @ [k]). separator \<notin> set s"
      using "2.prems"(4) sk by simp
    have "flatten_items sub (join_path (q @ [k])) [] =
        fold (\<lambda>px r. dict_set r (join_path ((q @ [k]) @ fst px)) (snd px)) (flat_paths sub) []"
      by (rule "2.IH"(1) [OF VDict ds oks hq sq]) simp
    also have "\<dots> = fold (\<lambda>kv r. dict_set r (fst kv) (snd kv))
        (map (\<lambda>px. (join_path ((q @ [k]) @ fst px), snd px)) (flat_paths sub)) []"
      by (simp add: fold_map comp_def)
    also have "\<dots> = map (\<lambda>px. (join_path ((q @ [k]) @ fst px), snd px)) (flat_paths sub)"
      using join_paths_distinct [OF ds oks sq]
      by (subst fold_dict_set_distinct) (simp_all add: comp_def)
    finally have sub_flat: "flatten_items sub (join_path (q @ [k])) [] =
        map (\<lambda>px. (join_path ((q @ [k]) @ fst px), snd px)) (flat_paths sub)" .
    have "dict_update result (flatten_items sub (join_path (q @ [k])) []) =
        fold (\<lambda>px r. dict_set r (join_path (q @ k # fst px)) (snd px)) (flat_paths sub) result"
      by (simp add: dict_update_def sub_flat fold_map comp_def)
    then show ?thesis
      using VDict by (simp add: nk rest fold_map comp_def del: join_path.simps)
  qed (simp_all add: nk rest del: join_path.simps)
qed

lemma set_walk_under_key:
  "\<forall>px \<in> set ps. fst px \<noteq> [] \<Longrightarrow>
   fold (\<lambda>px r. set_walk r (butlast (k # fst px)) (last (k # fst px)) (snd px)) ps
     (dict_set r k (VDict s))
   = dict_set r k
       (VDict (fold (\<lambda>px s. set_walk s (butlast (fst px)) (last (fst px)) (snd px)) ps s))"
proof (induction ps arbitrary: s)
  case Nil
  then show ?case by simp
next
  case (Cons px ps)
  from Cons.prems have ne: "fst px \<noteq> []" and rest: "\<forall>px \<in> set ps. fst px \<noteq> []" by simp_all
  have "set_walk (dict_set r k (VDict s)) (butlast (k # fst px)) (last (k # fst px)) (snd px)
      = dict_set r k (VDict (set_walk s (butlast (fst px)) (last (fst px)) (snd px)))"
    using ne by (simp add: update_conv')
  then show ?case
    using Cons.IH [OF rest] by simp
qed

lemma set_walk_new_key:
  assumes "ps \<noteq> []" and "\<forall>px \<in> set ps. fst px \<noteq> []"
  shows "fold (\<lambda>px r. set_walk r (butlast (k # fst px)) (last (k # fst px)) (snd px)) ps r
   = dict_set r k
       (VDict (fold (\<lambda>px s. set_walk s (butlast (fst px)) (last (fst px)) (snd px)) ps
                 (case dict_get r k of Some (VDict s) \<Rightarrow> s | _ \<Rightarrow> [])))"
proof -
  from assms(1) obtain px ps' where ps: "ps = px # ps'" by (cases ps) auto
  from assms(2) ps have ne: "fst px \<noteq> []" and rest: "\<forall>px \<in> set ps'. fst px \<noteq> []" by simp_all
  let ?s0 = "case dict_get r k of Some (VDict s) \<Rightarrow> s | _ \<Rightarrow> []"
  have first: "set_walk r (butlast (k # fst px)) (last (k # fst px)) (snd px)
      = dict_set r k (VDict (set_walk ?s0 (butlast (fst px)) (last (fst px)) (snd px)))"
    using ne by simp
  show ?thesis
    unfolding ps by (simp only: fold_simps first set_walk_under_key [OF rest])
qed

lemma unflatten_paths:
  "distinct (map fst d) \<Longrightarrow>
   list_all (\<lambda>kv. separator \<notin> set (fst kv) \<and> flat_ok (snd kv)) d \<Longrightarrow>
   fst ` set d \<inter> fst ` set r = {} \<Longrightarrow>
   fold (\<lambda>px r. set_walk r (butlast (fst px)) (last (fst px)) (snd px)) (flat_paths d) r = r @ d"
proof (induction d arbitrary: r rule: flat_paths.induct)
  case 1
  then show ?case by simp
next
  case (2 k v d)
  from "2.prems" have dd: "distinct (map fst d)"
    and okd: "list_all (\<lambda>kv. separator \<notin> set (fst kv) \<and> flat_ok (snd kv)) d"
    and okv: "flat_ok v" and knr: "k \<notin> fst ` set r" and knd: "k \<notin> fst ` set d"
    and disj: "fst ` set d \<inter> fst ` set r = {}"
    by auto
  have disj': "fst ` set d \<inter> fst ` set (r @ [(k, v)]) = {}"
    using disj knd by auto
  note rest = "2.IH"(2) [OF dd okd disj']
  have none: "dict_get r k = None" using knr by (simp add: map_of_eq_None_iff)
  show ?case
  proof (cases v)
    case (VDict sub)
    from okv VDict have ds: "distinct (map fst sub)"
      and oks: "list_all (\<lambda>kv. separator \<notin> set (fst kv) \<and> flat_ok (snd kv)) sub"
      and fo: "flat_ok (VDict sub)"
      by simp_all
    have ne: "flat_paths sub \<noteq> []" using fo by (rule flat_paths_nonempty)
    have pne: "\<forall>px \<in> set (flat_paths sub). fst px \<noteq> []"
      using flat_paths_hd by blast
    have inner: "fold (\<lambda>px s. set_walk s (butlast (fst px)) (last (fst px)) (snd px))
        (flat_paths sub) [] = sub"
      using "2.IH"(1) [OF VDict ds oks, of "[]"] by simp
    have "fold (\<lambda>px r. set_walk r (butlast (fst px)) (last (fst px)) (snd px))
        (map (\<lambda>px. (k # fst px, snd px)) (flat_paths sub)) r
      = fold (\<lambda>px r. set_walk r (butlast (k # fst px)) (last (k # fst px)) (snd px))
          (flat_paths sub) r"
      by (simp add: fold_map comp_def)
    also have "\<dots> = dict_set r k (VDict sub)"
      by (simp only: set_walk_new_key [OF ne pne] none option.simps inner)
    also have "\<dots> = r @ [(k, v)]"
      using VDict by (simp add: dict_set_new_key [OF knr])
    finally show ?thesis
      using VDict rest by simp
  qed (use rest knr in \<open>simp_all add: dict_set_new_key\<close>)
qed

text \<open>
  The empty key at the top level is the one case in which the round trip fails. For every
  tree with distinct, separator-free keys, no empty dictionary as a value, and no
  dictionary under an empty key at the top level, \<open>flatten_dict\<close> lists the leaves under
  their joined paths, and \<open>unflatten_dict\<close> gives the tree back, with its keys in their
  order.
\<close>

theorem flatten_unflatten_roundtrip:
  assumes "flat_top t"
  shows "unflatten_dict (flatten_dict t []) = t"
proof -
  from assms have d: "distinct (map fst t)"
    and ok: "list_all (\<lambda>kv. separator \<notin> set (fst kv) \<and> flat_ok (snd kv)) t"
    and top: "\<forall>kv \<in> set t. \<not> (fst kv = [] \<and> is_dict (snd kv))"
    by (auto simp: flat_top_def list_all_iff)
  have "flatten_dict t [] =
      fold (\<lambda>px r. dict_set r (join_path ([] @ fst px)) (snd px)) (flat_paths t) []"
    unfolding flatten_dict_def
    using flatten_items_paths [OF d ok, of "[]" "[]"] top by simp
  also have "\<dots> = fold (\<lambda>kv r. dict_set r (fst kv) (snd kv))
      (map (\<lambda>px. (join_path (fst px), snd px)) (flat_paths t)) []"
    by (simp add: fold_map comp_def)
  also have "\<dots> = map (\<lambda>px. (join_path (fst px), snd px)) (flat_paths t)"
    using join_paths_distinct [OF d ok, of "[]"]
    by (subst fold_dict_set_distinct) (simp_all add: comp_def)
  finally have flat: "flatten_dict t [] = map (\<lambda>px. (join_path (fst px), snd px)) (flat_paths t)" .
  have walk: "set_nested_value r (join_path (fst px)) (snd px)
      = set_walk r (butlast (fst px)) (last (fst px)) (snd px)"
    if "px \<in> set (flat_paths t)" for px r
  proof -
    from flat_paths_hd [OF that] flat_paths_segments [OF d ok that]
    have "split_path (join_path (fst px)) = fst px"
      by (intro split_join) auto
    then show ?thesis by (simp add: set_nested_value_def Let_def)
  qed
  have "unflatten_dict (flatten_dict t []) =
      fold (\<lambda>px r. set_nested_value r (join_path (fst px)) (snd px)) (flat_paths t) []"
    by (simp add: unflatten_dict_def flat fold_map comp_def)
  also have "\<dots> = fold (\<lambda>px r. set_walk r (butlast (fst px)) (last (fst px)) (snd px))
      (flat_paths t) []"
    by (rule fold_cong) (auto simp: walk)
  also have "\<dots> = t"
    using unflatten_paths [OF d ok, of "[]"] by simp
  finally show ?thesis .
qed

theorem flatten_unflatten_roundtrip_witness:
  "flat_top [(''app'', VDict [(''name'', VStr ''MyApp''),
                              (''database'', VDict [(''host'', VStr ''localhost''),
                                                    (''port'', VInt 5432)])]),
             (''debug'', VBool True)]
   \<and> flatten_dict [(''app'', VDict [(''name'', VStr ''MyApp''),
                                      (''database'', VDict [(''host'', VStr ''localhost''),
                                                            (''port'', VInt 5432)])]),
                     (''debug'', VBool True)] []
       = [(''app.name'', VStr ''MyApp''), (''app.database.host'', VStr ''localhost''),
          (''app.database.port'', VInt 5432), (''debug'', VBool True)]
   \<and> unflatten_dict
         (flatten_dict [(''app'', VDict [(''name'', VStr ''MyApp''),
                                        (''database'', VDict [(''host'', VStr ''localhost''),
                                                              (''port'', VInt 5432)])]),
                       (''debug'', VBool True)] [])
       = [(''app'', VDict [(''name'', VStr ''MyApp''),
                           (''database'', VDict [(''host'', VStr ''localhost''),
                                                 (''port'', VInt 5432)])]),
          (''debug'', VBool True)]"
proof -
  have t: "flat_top [(''app'', VDict [(''name'', VStr ''MyApp''),
                              (''database'', VDict [(''host'', VStr ''localhost''),
                                                    (''port'', VInt 5432)])]),
             (''debug'', VBool True)]"
    by code_simp
  have f: "flatten_dict [(''app'', VDict [(''name'', VStr ''MyApp''),
                                      (''database'', VDict [(''host'', VStr ''localhost''),
                                                            (''port'', VInt 5432)])]),
                     (''debug'', VBool True)] []
       = [(''app.name'', VStr ''MyApp''), (''app.database.host'', VStr ''localhost''),
          (''app.database.port'', VInt 5432), (''debug'', VBool True)]"
    by code_simp
  from t f flatten_unflatten_roundtrip [OF t] show ?thesis by simp
qed

end
